theory Spec2Isabelle
  imports Complex_Main
begin

section \<open>The scene-graph node (class Sprite)\<close>

text \<open>
  JavaScript numbers are modelled as real numbers: every statement below is about finite,
  non-NaN values, and \<open>===\<close> on numbers is equality. Object references are natural
  numbers, and the heap of sprites is a total map from references to records, so that
  the parent/children aliasing of the code is kept. \<open>undefined\<close> and \<open>null\<close> are both
  \<open>None\<close> for the fields the code only tests with \<open>== null\<close> or for truthiness; the
  texture is compared with \<open>===\<close>, so it keeps the two apart.
\<close>

datatype AlignType = TOP | RIGHT | BOTTOM | LEFT | CENTER

text \<open>
  Modelled from the spec: the class Texture is not among the sources. The texture
  collaborator exposes its width, its height, a ready flag and an onReady registration;
  \<open>tid\<close> stands for the identity of the object, and a value of the type is the object
  as it is when it is assigned.
\<close>

datatype Texture = Texture (tid: nat) (ready: bool) (texWidth: real) (texHeight: real)

datatype 'a nullable = Undefined | Null | Ref 'a

datatype UIEvent = ADD_TO_STAGE | REMOVED_FROM_STAGE

text \<open>
  The fields of Sprite that the layout code, the tree operations and the action engine
  read or write. \<open>emitted\<close> records the events passed to \<open>emit\<close> (the class
  EventEmitter is not among the sources) and \<open>onReady\<close> the textures on which the sprite
  has registered a ready callback.
\<close>

record Sprite =
  width :: real
  height :: real
  originX :: real
  originY :: real
  rotation :: real
  rotationRad :: real
  texture :: "Texture nullable"
  alignX :: "AlignType option"
  alignY :: "AlignType option"
  parent :: "nat option"
  stage :: "nat option"
  top :: "real option"
  right :: "real option"
  bottom :: "real option"
  left :: "real option"
  percentWidth :: "real option"
  percentHeight :: "real option"
  originPixelX :: real
  originPixelY :: real
  grid :: "real list option"
  x :: real
  y :: real
  scaleX :: real
  scaleY :: real
  radius :: real
  opacity :: real
  sourceX :: real
  sourceY :: real
  sourceWidth :: "real option"
  sourceHeight :: "real option"
  borderWidth :: "real option"
  autoResize :: bool
  children :: "nat list option"
  emitted :: "UIEvent list"
  onReady :: "Texture list"

type_synonym store = "nat \<Rightarrow> Sprite"

text \<open>The field initialisers of the class: the state of \<open>new Sprite()\<close>.\<close>

definition new_Sprite :: Sprite where
  "new_Sprite =
     \<lparr> width = 0, height = 0, originX = 0.5, originY = 0.5, rotation = 0, rotationRad = 0,
       texture = Undefined, alignX = None, alignY = None, parent = None, stage = None,
       top = None, right = None, bottom = None, left = None,
       percentWidth = None, percentHeight = None, originPixelX = 0, originPixelY = 0,
       grid = None, x = 0, y = 0, scaleX = 1, scaleY = 1, radius = 0, opacity = 1,
       sourceX = 0, sourceY = 0, sourceWidth = None, sourceHeight = None,
       borderWidth = None, autoResize = True, children = None,
       emitted = [], onReady = [] \<rparr>"

definition RAD_PER_DEG :: real where
  "RAD_PER_DEG = pi / 180"

subsection \<open>Alignment\<close>

definition adjustAlignX :: "store \<Rightarrow> nat \<Rightarrow> store" where
  "adjustAlignX s i =
     (case parent (s i) of
        None \<Rightarrow> s
      | Some p \<Rightarrow>
          (case alignX (s i) of
             None \<Rightarrow> s
           | Some a \<Rightarrow>
               (let ox = originPixelX (s i) in
                case a of
                  LEFT \<Rightarrow> s(i := (s i)\<lparr>x := ox\<rparr>)
                | RIGHT \<Rightarrow> s(i := (s i)\<lparr>x := width (s p) - (width (s i) - ox)\<rparr>)
                | CENTER \<Rightarrow> s(i := (s i)\<lparr>x := width (s p) * 0.5 + ox - width (s i) * 0.5\<rparr>)
                | _ \<Rightarrow> s)))"

definition adjustAlignY :: "store \<Rightarrow> nat \<Rightarrow> store" where
  "adjustAlignY s i =
     (case parent (s i) of
        None \<Rightarrow> s
      | Some p \<Rightarrow>
          (case alignY (s i) of
             None \<Rightarrow> s
           | Some a \<Rightarrow>
               (let oy = originPixelY (s i) in
                case a of
                  TOP \<Rightarrow> s(i := (s i)\<lparr>y := oy\<rparr>)
                | BOTTOM \<Rightarrow> s(i := (s i)\<lparr>y := height (s p) - (height (s i) - oy)\<rparr>)
                | CENTER \<Rightarrow> s(i := (s i)\<lparr>y := height (s p) * 0.5 + oy - height (s i) * 0.5\<rparr>)
                | _ \<Rightarrow> s)))"

subsection \<open>The width and height setters and the re-layout of the children\<close>

text \<open>
  The width setter re-lays out the children, whose own width setters re-lay out theirs.
  On a cyclic heap (a sprite added to itself) the code recurses without end, so the
  recursion is bounded by fuel and \<open>None\<close> means that the fuel ran out.
  \<open>reLayoutChildrenOnWidthChanged n s cs\<close> is the \<open>forEach\<close> over the children \<open>cs\<close>;
  the test for a missing or empty list is the \<open>case\<close> in the setter.
\<close>

fun set_width :: "nat \<Rightarrow> store \<Rightarrow> nat \<Rightarrow> real \<Rightarrow> store option"
and resizeWidth :: "nat \<Rightarrow> store \<Rightarrow> nat \<Rightarrow> store option"
and reLayoutChildrenOnWidthChanged :: "nat \<Rightarrow> store \<Rightarrow> nat list \<Rightarrow> store option"
where
  "set_width 0 s i v = None"
| "set_width (Suc n) s i v =
     (if width (s i) = v then Some s
      else
        let s1 = s(i := (s i)\<lparr>width := v, originPixelX := v * originX (s i)\<rparr>);
            s2 = adjustAlignX s1 i
        in (case children (s2 i) of
              None \<Rightarrow> Some s2
            | Some cs \<Rightarrow> reLayoutChildrenOnWidthChanged n s2 cs))"
| "resizeWidth n s i =
     (case parent (s i) of
        None \<Rightarrow> Some s
      | Some p \<Rightarrow>
          (case (left (s i), right (s i)) of
             (Some l, Some r) \<Rightarrow>
               (case set_width n s i (width (s p) - l - r) of
                  None \<Rightarrow> None
                | Some s1 \<Rightarrow> Some (s1(i := (s1 i)\<lparr>x := l + originPixelX (s1 i)\<rparr>)))
           | _ \<Rightarrow>
               (case percentWidth (s i) of
                  None \<Rightarrow> Some s
                | Some pw \<Rightarrow> set_width n s i (width (s p) * pw))))"
| "reLayoutChildrenOnWidthChanged n s [] = Some s"
| "reLayoutChildrenOnWidthChanged n s (c # cs) =
     (case resizeWidth n s c of
        None \<Rightarrow> None
      | Some s1 \<Rightarrow> reLayoutChildrenOnWidthChanged n (adjustAlignX s1 c) cs)"

fun set_height :: "nat \<Rightarrow> store \<Rightarrow> nat \<Rightarrow> real \<Rightarrow> store option"
and resizeHeight :: "nat \<Rightarrow> store \<Rightarrow> nat \<Rightarrow> store option"
and reLayoutChildrenOnHeightChanged :: "nat \<Rightarrow> store \<Rightarrow> nat list \<Rightarrow> store option"
where
  "set_height 0 s i v = None"
| "set_height (Suc n) s i v =
     (if height (s i) = v then Some s
      else
        let s1 = s(i := (s i)\<lparr>height := v, originPixelY := v * originY (s i)\<rparr>);
            s2 = adjustAlignY s1 i
        in (case children (s2 i) of
              None \<Rightarrow> Some s2
            | Some cs \<Rightarrow> reLayoutChildrenOnHeightChanged n s2 cs))"
| "resizeHeight n s i =
     (case parent (s i) of
        None \<Rightarrow> Some s
      | Some p \<Rightarrow>
          (case (top (s i), bottom (s i)) of
             (Some t, Some b) \<Rightarrow>
               (case set_height n s i (height (s p) - t - b) of
                  None \<Rightarrow> None
                | Some s1 \<Rightarrow> Some (s1(i := (s1 i)\<lparr>y := t + originPixelY (s1 i)\<rparr>)))
           | _ \<Rightarrow>
               (case percentHeight (s i) of
                  None \<Rightarrow> Some s
                | Some ph \<Rightarrow> set_height n s i (height (s p) * ph))))"
| "reLayoutChildrenOnHeightChanged n s [] = Some s"
| "reLayoutChildrenOnHeightChanged n s (c # cs) =
     (case resizeHeight n s c of
        None \<Rightarrow> None
      | Some s1 \<Rightarrow> reLayoutChildrenOnHeightChanged n (adjustAlignY s1 c) cs)"

declare resizeWidth.simps [simp del] resizeHeight.simps [simp del]

subsection \<open>The other property setters\<close>

definition set_originX :: "store \<Rightarrow> nat \<Rightarrow> real \<Rightarrow> store" where
  "set_originX s i v =
     (if originX (s i) = v then s
      else adjustAlignX (s(i := (s i)\<lparr>originX := v, originPixelX := v * width (s i)\<rparr>)) i)"

definition set_originY :: "store \<Rightarrow> nat \<Rightarrow> real \<Rightarrow> store" where
  "set_originY s i v =
     (if originY (s i) = v then s
      else adjustAlignY (s(i := (s i)\<lparr>originY := v, originPixelY := v * height (s i)\<rparr>)) i)"

definition set_top :: "nat \<Rightarrow> store \<Rightarrow> nat \<Rightarrow> real \<Rightarrow> store option" where
  "set_top n s i v = resizeHeight n (s(i := (s i)\<lparr>autoResize := False, top := Some v\<rparr>)) i"

definition set_right :: "nat \<Rightarrow> store \<Rightarrow> nat \<Rightarrow> real \<Rightarrow> store option" where
  "set_right n s i v = resizeWidth n (s(i := (s i)\<lparr>autoResize := False, right := Some v\<rparr>)) i"

definition set_bottom :: "nat \<Rightarrow> store \<Rightarrow> nat \<Rightarrow> real \<Rightarrow> store option" where
  "set_bottom n s i v = resizeHeight n (s(i := (s i)\<lparr>autoResize := False, bottom := Some v\<rparr>)) i"

definition set_left :: "nat \<Rightarrow> store \<Rightarrow> nat \<Rightarrow> real \<Rightarrow> store option" where
  "set_left n s i v = resizeWidth n (s(i := (s i)\<lparr>autoResize := False, left := Some v\<rparr>)) i"

definition set_percentWidth :: "nat \<Rightarrow> store \<Rightarrow> nat \<Rightarrow> real \<Rightarrow> store option" where
  "set_percentWidth n s i v =
     resizeWidth n (s(i := (s i)\<lparr>autoResize := False, percentWidth := Some v\<rparr>)) i"

definition set_percentHeight :: "nat \<Rightarrow> store \<Rightarrow> nat \<Rightarrow> real \<Rightarrow> store option" where
  "set_percentHeight n s i v =
     resizeHeight n (s(i := (s i)\<lparr>autoResize := False, percentHeight := Some v\<rparr>)) i"

definition set_grid :: "store \<Rightarrow> nat \<Rightarrow> real list \<Rightarrow> store" where
  "set_grid s i g = s(i := (s i)\<lparr>grid := Some g, autoResize := False\<rparr>)"

definition set_rotation :: "store \<Rightarrow> nat \<Rightarrow> real \<Rightarrow> store" where
  "set_rotation s i v =
     (if rotation (s i) = v then s
      else s(i := (s i)\<lparr>rotation := v, rotationRad := v * RAD_PER_DEG\<rparr>))"

text \<open>
  The texture setter, for a value that is a texture object, \<open>null\<close> or \<open>undefined\<close> (a
  string goes through \<open>Texture.create\<close>, which is not among the sources). A texture
  that is not ready only gets a callback registered.
\<close>

definition set_texture :: "nat \<Rightarrow> store \<Rightarrow> nat \<Rightarrow> Texture nullable \<Rightarrow> store option" where
  "set_texture n s i v =
     (if v = texture (s i) then Some s
      else
        let s1 = s(i := (s i)\<lparr>texture := v\<rparr>) in
        if \<not> autoResize (s1 i) then Some s1
        else
          (case v of
             Ref t \<Rightarrow>
               if ready t then
                 (case set_width n s1 i (texWidth t) of
                    None \<Rightarrow> None
                  | Some s2 \<Rightarrow> set_height n s2 i (texHeight t))
               else Some (s1(i := (s1 i)\<lparr>onReady := onReady (s1 i) @ [t]\<rparr>))
           | _ \<Rightarrow>
               (case set_width n s1 i 0 of
                  None \<Rightarrow> None
                | Some s2 \<Rightarrow> set_height n s2 i 0)))"

definition set_parent :: "store \<Rightarrow> nat \<Rightarrow> nat option \<Rightarrow> store" where
  "set_parent s i p =
     (if p = parent (s i) then s
      else
        let s1 = s(i := (s i)\<lparr>parent := p\<rparr>) in
        (case p of
           None \<Rightarrow> s1
         | Some _ \<Rightarrow> adjustAlignY (adjustAlignX s1 i) i))"

fun set_stage :: "nat \<Rightarrow> store \<Rightarrow> nat \<Rightarrow> nat option \<Rightarrow> store option"
and set_stage_children :: "nat \<Rightarrow> store \<Rightarrow> nat list \<Rightarrow> nat option \<Rightarrow> store option"
where
  "set_stage 0 s i st = None"
| "set_stage (Suc n) s i st =
     (let ev = (if st = None then REMOVED_FROM_STAGE else ADD_TO_STAGE);
          s1 = s(i := (s i)\<lparr>stage := st, emitted := emitted (s i) @ [ev]\<rparr>)
      in (case children (s1 i) of
            None \<Rightarrow> Some s1
          | Some cs \<Rightarrow> set_stage_children n s1 cs st))"
| "set_stage_children n s [] st = Some s"
| "set_stage_children n s (c # cs) st =
     (case set_stage n s c st of
        None \<Rightarrow> None
      | Some s1 \<Rightarrow> set_stage_children n s1 cs st)"


subsection \<open>Adding a child\<close>

text \<open>
  An outcome is a normal return, a thrown error together with the state at the throw, or
  \<open>OutOfModel\<close>: the fuel ran out, or the code computes a value that is not a finite
  number.
\<close>

datatype error = Error string | TypeError string

datatype 'a result = Returned 'a | Threw error 'a | OutOfModel

definition addChild :: "nat \<Rightarrow> store \<Rightarrow> nat \<Rightarrow> nat \<Rightarrow> int option \<Rightarrow> store result" where
  "addChild n s self target position =
     (if parent (s target) \<noteq> None
      then Threw (Error ''canvas2d.Sprite.addChild(): Child has been added.'') s
      else
        let cs = (case children (s self) of None \<Rightarrow> [] | Some cs \<Rightarrow> cs);
            s0 = s(self := (s self)\<lparr>children := Some cs\<rparr>)
        in if target \<in> set cs then Returned s0
           else
             let cs' = (case position of
                          None \<Rightarrow> cs @ [target]
                        | Some p \<Rightarrow>
                            if p > -1 \<and> p < int (length cs)
                            then take (nat p) cs @ [target] @ drop (nat p) cs
                            else cs @ [target]);
                 s1 = s0(self := (s0 self)\<lparr>children := Some cs'\<rparr>);
                 s2 = set_parent s1 target (Some self)
             in (case (case stage (s2 self) of
                         None \<Rightarrow> Some s2
                       | Some st \<Rightarrow> set_stage n s2 target (Some st)) of
                   None \<Rightarrow> OutOfModel
                 | Some s3 \<Rightarrow>
                     (case resizeWidth n s3 target of
                        None \<Rightarrow> OutOfModel
                      | Some s4 \<Rightarrow>
                          (case resizeHeight n s4 target of
                             None \<Rightarrow> OutOfModel
                           | Some s5 \<Rightarrow> Returned s5))))"

section \<open>The action engine\<close>

subsection \<open>Behaviours\<close>

text \<open>
  A Transition assigns \<open>sprite[name]\<close> for attribute names given as strings, with numbers as
  values. The names modelled are the properties that the class Sprite declares with the
  type number (\<open>id\<close>, which the constructor takes from \<open>uid\<close>, is left out). Reading a
  property that is still undefined gives \<open>None\<close>; an assignment runs the setter of the
  property where the class declares one.
\<close>

datatype attr =
    Attr_x | Attr_y | Attr_scaleX | Attr_scaleY | Attr_radius | Attr_opacity
  | Attr_sourceX | Attr_sourceY | Attr_sourceWidth | Attr_sourceHeight | Attr_borderWidth
  | Attr_width | Attr_height | Attr_originX | Attr_originY | Attr_rotation
  | Attr_top | Attr_right | Attr_bottom | Attr_left | Attr_percentWidth | Attr_percentHeight

fun get_attr :: "Sprite \<Rightarrow> attr \<Rightarrow> real option" where
  "get_attr r Attr_x = Some (x r)"
| "get_attr r Attr_y = Some (y r)"
| "get_attr r Attr_scaleX = Some (scaleX r)"
| "get_attr r Attr_scaleY = Some (scaleY r)"
| "get_attr r Attr_radius = Some (radius r)"
| "get_attr r Attr_opacity = Some (opacity r)"
| "get_attr r Attr_sourceX = Some (sourceX r)"
| "get_attr r Attr_sourceY = Some (sourceY r)"
| "get_attr r Attr_sourceWidth = sourceWidth r"
| "get_attr r Attr_sourceHeight = sourceHeight r"
| "get_attr r Attr_borderWidth = borderWidth r"
| "get_attr r Attr_width = Some (width r)"
| "get_attr r Attr_height = Some (height r)"
| "get_attr r Attr_originX = Some (originX r)"
| "get_attr r Attr_originY = Some (originY r)"
| "get_attr r Attr_rotation = Some (rotation r)"
| "get_attr r Attr_top = top r"
| "get_attr r Attr_right = right r"
| "get_attr r Attr_bottom = bottom r"
| "get_attr r Attr_left = left r"
| "get_attr r Attr_percentWidth = percentWidth r"
| "get_attr r Attr_percentHeight = percentHeight r"

fun set_attr :: "nat \<Rightarrow> store \<Rightarrow> nat \<Rightarrow> attr \<Rightarrow> real \<Rightarrow> store option" where
  "set_attr n s i Attr_x v = Some (s(i := (s i)\<lparr>x := v\<rparr>))"
| "set_attr n s i Attr_y v = Some (s(i := (s i)\<lparr>y := v\<rparr>))"
| "set_attr n s i Attr_scaleX v = Some (s(i := (s i)\<lparr>scaleX := v\<rparr>))"
| "set_attr n s i Attr_scaleY v = Some (s(i := (s i)\<lparr>scaleY := v\<rparr>))"
| "set_attr n s i Attr_radius v = Some (s(i := (s i)\<lparr>radius := v\<rparr>))"
| "set_attr n s i Attr_opacity v = Some (s(i := (s i)\<lparr>opacity := v\<rparr>))"
| "set_attr n s i Attr_sourceX v = Some (s(i := (s i)\<lparr>sourceX := v\<rparr>))"
| "set_attr n s i Attr_sourceY v = Some (s(i := (s i)\<lparr>sourceY := v\<rparr>))"
| "set_attr n s i Attr_sourceWidth v = Some (s(i := (s i)\<lparr>sourceWidth := Some v\<rparr>))"
| "set_attr n s i Attr_sourceHeight v = Some (s(i := (s i)\<lparr>sourceHeight := Some v\<rparr>))"
| "set_attr n s i Attr_borderWidth v = Some (s(i := (s i)\<lparr>borderWidth := Some v\<rparr>))"
| "set_attr n s i Attr_width v = set_width n s i v"
| "set_attr n s i Attr_height v = set_height n s i v"
| "set_attr n s i Attr_originX v = Some (set_originX s i v)"
| "set_attr n s i Attr_originY v = Some (set_originY s i v)"
| "set_attr n s i Attr_rotation v = Some (set_rotation s i v)"
| "set_attr n s i Attr_top v = set_top n s i v"
| "set_attr n s i Attr_right v = set_right n s i v"
| "set_attr n s i Attr_bottom v = set_bottom n s i v"
| "set_attr n s i Attr_left v = set_left n s i v"
| "set_attr n s i Attr_percentWidth v = set_percentWidth n s i v"
| "set_attr n s i Attr_percentHeight v = set_percentHeight n s i v"



record IActionAttr =
  name :: attr
  dest :: real
  easing :: "real \<Rightarrow> real"

text \<open>
  The four classes that implement IActionDefinition. A callback is the number that
  identifies its function; calling it appends that number to the log of calls, and the body
  of the function is outside the model (it is taken not to re-enter the engine).
\<close>

datatype IActionDefinition =
    Callback (is_done: bool) (immediate: bool) (func: nat)
  | Delay (is_done: bool) (immediate: bool) (elapsed: real) (duration: real)
  | Transition (is_done: bool) (immediate: bool) (elapsed: real) (attrs: "IActionAttr list")
      (starts: "attr \<Rightarrow> real option") (deltas: "attr \<Rightarrow> real option") (duration: real)
  | Animation (is_done: bool) (immediate: bool) (elapsed: real) (count: nat) (frameIndex: nat)
      (interval: real) (frameList: "Texture list") (repetitions: "real option")

text \<open>The constructors, with the field initialisers of each class.\<close>

definition new_Callback :: "nat \<Rightarrow> IActionDefinition" where
  "new_Callback f = Callback False True f"

definition new_Delay :: "real \<Rightarrow> IActionDefinition" where
  "new_Delay d = Delay False True 0 d"

text \<open>
  The Transition constructor resolves each entry of the attribute map to a name, a
  destination and an easing function (the table of easing functions is not among the
  sources); \<open>new_Transition\<close> starts from the resolved list.
\<close>

definition new_Transition :: "IActionAttr list \<Rightarrow> real \<Rightarrow> IActionDefinition" where
  "new_Transition as d = Transition False False 0 as Map.empty Map.empty d"

text \<open>The frame rate is taken to be non-zero: \<open>1 / 0\<close> is \<open>Infinity\<close> in the code.\<close>

definition new_Animation :: "Texture list \<Rightarrow> real \<Rightarrow> real option \<Rightarrow> IActionDefinition" where
  "new_Animation fl frameRate reps = Animation False False 0 0 0 (1 / frameRate) fl reps"

fun Transition_end :: "nat \<Rightarrow> store \<Rightarrow> nat \<Rightarrow> IActionAttr list \<Rightarrow> store option" where
  "Transition_end n s i [] = Some s"
| "Transition_end n s i (a # as) =
     (case set_attr n s i (name a) (dest a) of
        None \<Rightarrow> None
      | Some s1 \<Rightarrow> Transition_end n s1 i as)"

text \<open>
  The \<open>forEach\<close> of the interpolating branch of \<open>Transition.step\<close>. A start value read
  from a property that is undefined, or a name with a start value and no delta, makes the
  code compute NaN: the result is \<open>None\<close>, as it is when the fuel of a setter runs out.
\<close>

fun Transition_interpolate ::
  "nat \<Rightarrow> real \<Rightarrow> nat \<Rightarrow> IActionAttr list \<Rightarrow>
   (attr \<Rightarrow> real option) \<Rightarrow> (attr \<Rightarrow> real option) \<Rightarrow> store \<Rightarrow>
   ((attr \<Rightarrow> real option) \<times> (attr \<Rightarrow> real option) \<times> store) option"
where
  "Transition_interpolate n percent i [] sts dls s = Some (sts, dls, s)"
| "Transition_interpolate n percent i (a # as) sts dls s =
     (let delta = easing a percent;
          captured =
            (case sts (name a) of
               None \<Rightarrow>
                 (case get_attr (s i) (name a) of
                    None \<Rightarrow> None
                  | Some st0 \<Rightarrow> Some (st0, sts(name a \<mapsto> st0), dls(name a \<mapsto> dest a - st0)))
             | Some st0 \<Rightarrow> Some (st0, sts, dls))
      in (case captured of
            None \<Rightarrow> None
          | Some (start, sts1, dls1) \<Rightarrow>
              (case dls1 (name a) of
                 None \<Rightarrow> None
               | Some dl \<Rightarrow>
                   (case set_attr n s i (name a) (start + delta * dl) of
                      None \<Rightarrow> None
                    | Some s1 \<Rightarrow> Transition_interpolate n percent i as sts1 dls1 s1))))"

text \<open>
  \<open>step n dt sp b st calls\<close> is \<open>b.step(dt, sp)\<close> on the heap of sprites \<open>st\<close> and the log of
  callback calls \<open>calls\<close>. With \<open>sp = null\<close> a Transition or an Animation that touches the
  sprite throws a TypeError; the state at the throw has the fields written before it (the
  right-hand side of the texture assignment is evaluated before the assignment fails).
\<close>

fun step ::
  "nat \<Rightarrow> real \<Rightarrow> nat option \<Rightarrow> IActionDefinition \<Rightarrow> store \<Rightarrow> nat list \<Rightarrow>
   (IActionDefinition \<times> store \<times> nat list) result"
where
  "step n dt sp (Callback d im f) st calls =
     (if \<not> d then Returned (Callback True im f, st, calls @ [f])
      else Returned (Callback d im f, st, calls))"
| "step n dt sp (Delay d im e du) st calls =
     (let e1 = e + dt
      in Returned (Delay (if e1 \<ge> du then True else d) im e1 du, st, calls))"
| "step n dt sp (Transition d im e as sts dls du) st calls =
     (let e1 = e + dt in
      if e1 \<ge> du then
        (case sp of
           None \<Rightarrow>
             if as = [] then Returned (Transition True im e1 as sts dls du, st, calls)
             else Threw (TypeError ''sprite is null'') (Transition d im e1 as sts dls du, st, calls)
         | Some i \<Rightarrow>
             (case Transition_end n st i as of
                None \<Rightarrow> OutOfModel
              | Some st1 \<Rightarrow> Returned (Transition True im e1 as sts dls du, st1, calls)))
      else if du = 0 then OutOfModel
      else
        (case sp of
           None \<Rightarrow>
             if as = [] then Returned (Transition d im e1 as sts dls du, st, calls)
             else Threw (TypeError ''sprite is null'') (Transition d im e1 as sts dls du, st, calls)
         | Some i \<Rightarrow>
             (case Transition_interpolate n (e1 / du) i as sts dls st of
                None \<Rightarrow> OutOfModel
              | Some (sts1, dls1, st1) \<Rightarrow>
                  Returned (Transition d im e1 as sts1 dls1 du, st1, calls))))"
| "step n dt sp (Animation d im e c fi iv fl reps) st calls =
     (let e1 = e + dt in
      if e1 \<ge> iv then
        (let frame = (if fi < length fl then Ref (fl ! fi) else Undefined);
             fi1 = fi + 1
         in (case sp of
               None \<Rightarrow>
                 Threw (TypeError ''sprite is null'') (Animation d im e1 c fi1 iv fl reps, st, calls)
             | Some i \<Rightarrow>
                 (case set_texture n st i frame of
                    None \<Rightarrow> OutOfModel
                  | Some st1 \<Rightarrow>
                      if fi1 = length fl then
                        (case reps of
                           None \<Rightarrow> Returned (Animation d im 0 c 0 iv fl reps, st1, calls)
                         | Some r \<Rightarrow>
                             if real (c + 1) < r
                             then Returned (Animation d im 0 (c + 1) 0 iv fl reps, st1, calls)
                             else Returned (Animation True im 0 (c + 1) fi1 iv fl reps, st1, calls))
                      else Returned (Animation d im 0 c fi1 iv fl reps, st1, calls))))
      else Returned (Animation d im e1 c fi iv fl reps, st, calls))"

subsection \<open>Actions and listeners\<close>

record Action =
  queue :: "IActionDefinition list"
  action_done :: bool
  running :: bool
  sprite :: "nat option"

definition new_Action :: "nat \<Rightarrow> Action" where
  "new_Action sp = \<lparr> queue = [], action_done = False, running = False, sprite = Some sp \<rparr>"

record Listener =
  resolved :: bool
  callback_any :: "nat list option"
  callback_all :: "nat list option"
  actions :: "nat list"

definition new_Listener :: "nat list \<Rightarrow> Listener" where
  "new_Listener as = \<lparr> resolved = False, callback_any = None, callback_all = None, actions = as \<rparr>"

text \<open>
  The state of the engine: the heaps of sprites, actions and listeners, the two static
  lists of the class Action, and the log of the callbacks called so far.
\<close>

record world =
  sprites :: store
  actionHeap :: "nat \<Rightarrow> Action"
  listenerHeap :: "nat \<Rightarrow> Listener"
  actionList :: "nat list"
  listenerList :: "nat list"
  called :: "nat list"

definition addArrayItem :: "'a list \<Rightarrow> 'a \<Rightarrow> 'a list" where
  "addArrayItem array item = (if item \<in> set array then array else array @ [item])"

definition removeArrayItem :: "'a list \<Rightarrow> 'a \<Rightarrow> 'a list" where
  "removeArrayItem array item = remove1 item array"

definition publish :: "nat list \<Rightarrow> nat list \<Rightarrow> nat list" where
  "publish callbackList calls = calls @ callbackList"

text \<open>The private method \<open>_step\<close> of an action: the head of the queue is stepped.\<close>

function Action__step ::
  "nat \<Rightarrow> real \<Rightarrow> Action \<Rightarrow> store \<Rightarrow> nat list \<Rightarrow> (Action \<times> store \<times> nat list) result"
where
  "Action__step n dt a st calls =
     (case queue a of
        [] \<Rightarrow> Returned (a, st, calls)
      | b # q \<Rightarrow>
          (case step n dt (sprite a) b st calls of
             OutOfModel \<Rightarrow> OutOfModel
           | Threw e (b1, st1, calls1) \<Rightarrow> Threw e (a\<lparr>queue := b1 # q\<rparr>, st1, calls1)
           | Returned (b1, st1, calls1) \<Rightarrow>
               if is_done b1 then
                 (if q = [] then
                    Returned (a\<lparr>queue := [], action_done := True, running := False,
                                sprite := None\<rparr>, st1, calls1)
                  else if immediate b1 then Action__step n dt (a\<lparr>queue := q\<rparr>) st1 calls1
                  else Returned (a\<lparr>queue := q\<rparr>, st1, calls1))
               else Returned (a\<lparr>queue := b1 # q\<rparr>, st1, calls1)))"
  by pat_completeness auto
termination
  by (relation "measure (\<lambda>(n, dt, a, st, calls). length (queue a))") auto

declare Action__step.simps [simp del]

definition Listener__step :: "world \<Rightarrow> nat \<Rightarrow> world" where
  "Listener__step w l =
     (let allDone = list_all (\<lambda>a. action_done (actionHeap w a)) (actions (listenerHeap w l));
          anyDone = list_ex (\<lambda>a. action_done (actionHeap w a)) (actions (listenerHeap w l));
          w1 = (case callback_any (listenerHeap w l) of
                  Some cbs \<Rightarrow>
                    if anyDone then
                      w\<lparr>called := publish cbs (called w),
                        listenerHeap := (listenerHeap w)
                          (l := (listenerHeap w l)\<lparr>callback_any := None\<rparr>)\<rparr>
                    else w
                | None \<Rightarrow> w)
      in (case callback_all (listenerHeap w1 l) of
            Some cbs \<Rightarrow>
              if allDone then
                w1\<lparr>called := publish cbs (called w1),
                   listenerList := removeArrayItem (listenerList w1) l,
                   listenerHeap := (listenerHeap w1)
                     (l := (listenerHeap w1 l)\<lparr>resolved := True\<rparr>)\<rparr>
              else w1
          | None \<Rightarrow> w1))"

definition Listener_allDone :: "world \<Rightarrow> nat \<Rightarrow> nat \<Rightarrow> world" where
  "Listener_allDone w l callback =
     (if resolved (listenerHeap w l) then w\<lparr>called := called w @ [callback]\<rparr>
      else
        let cbs = (case callback_all (listenerHeap w l) of None \<Rightarrow> [] | Some cbs \<Rightarrow> cbs)
        in w\<lparr>listenerHeap := (listenerHeap w)
               (l := (listenerHeap w l)\<lparr>callback_all := Some (addArrayItem cbs callback)\<rparr>)\<rparr>)"

definition Listener_anyDone :: "world \<Rightarrow> nat \<Rightarrow> nat \<Rightarrow> world" where
  "Listener_anyDone w l callback =
     (if resolved (listenerHeap w l) then w\<lparr>called := called w @ [callback]\<rparr>
      else
        let cbs = (case callback_any (listenerHeap w l) of None \<Rightarrow> [] | Some cbs \<Rightarrow> cbs)
        in w\<lparr>listenerHeap := (listenerHeap w)
               (l := (listenerHeap w l)\<lparr>callback_any := Some (addArrayItem cbs callback)\<rparr>)\<rparr>)"

text \<open>\<open>Action.listen\<close>; \<open>l\<close> is the reference of the new listener.\<close>

definition Action_listen :: "world \<Rightarrow> nat \<Rightarrow> nat list \<Rightarrow> world" where
  "Action_listen w l as =
     w\<lparr>listenerHeap := (listenerHeap w)(l := new_Listener as),
       listenerList := listenerList w @ [l]\<rparr>"

text \<open>The methods of an action that queue a behaviour, and \<open>start\<close> and \<open>stop\<close>.\<close>

definition Action_then :: "world \<Rightarrow> nat \<Rightarrow> nat \<Rightarrow> world" where
  "Action_then w a f =
     w\<lparr>actionHeap := (actionHeap w)
         (a := (actionHeap w a)\<lparr>queue := queue (actionHeap w a) @ [new_Callback f]\<rparr>)\<rparr>"

definition Action_wait :: "world \<Rightarrow> nat \<Rightarrow> real \<Rightarrow> world" where
  "Action_wait w a time =
     w\<lparr>actionHeap := (actionHeap w)
         (a := (actionHeap w a)\<lparr>queue := queue (actionHeap w a) @ [new_Delay time]\<rparr>)\<rparr>"

definition Action_to :: "world \<Rightarrow> nat \<Rightarrow> IActionAttr list \<Rightarrow> real \<Rightarrow> world" where
  "Action_to w a as d =
     w\<lparr>actionHeap := (actionHeap w)
         (a := (actionHeap w a)\<lparr>queue := queue (actionHeap w a) @ [new_Transition as d]\<rparr>)\<rparr>"

definition Action_animate ::
  "nat \<Rightarrow> world \<Rightarrow> nat \<Rightarrow> Texture list \<Rightarrow> real \<Rightarrow> real option \<Rightarrow> world result" where
  "Action_animate n w a fl frameRate reps =
     (let anim = new_Animation fl frameRate reps;
          put = (\<lambda>b st calls.
                   w\<lparr>actionHeap := (actionHeap w)
                        (a := (actionHeap w a)\<lparr>queue := queue (actionHeap w a) @ [b]\<rparr>),
                     sprites := st, called := calls\<rparr>)
      in (case step n (interval anim) (sprite (actionHeap w a)) anim (sprites w) (called w) of
            OutOfModel \<Rightarrow> OutOfModel
          | Threw e (b, st, calls) \<Rightarrow> Threw e (put b st calls)
          | Returned (b, st, calls) \<Rightarrow> Returned (put b st calls)))"

definition Action_start :: "world \<Rightarrow> nat \<Rightarrow> world" where
  "Action_start w a =
     (if \<not> running (actionHeap w a) then
        w\<lparr>actionList := addArrayItem (actionList w) a,
          actionHeap := (actionHeap w)(a := (actionHeap w a)\<lparr>running := True\<rparr>)\<rparr>
      else w)"

definition Action_stop :: "world \<Rightarrow> nat \<Rightarrow> world" where
  "Action_stop w a =
     w\<lparr>actionHeap := (actionHeap w)
         (a := (actionHeap w a)\<lparr>action_done := True, running := False, queue := []\<rparr>),
       actionList := removeArrayItem (actionList w) a\<rparr>"

subsection \<open>The tick of the engine\<close>

text \<open>
  The \<open>for\<close> loop of \<open>Action.step\<close>, from the index \<open>i\<close>: the list is read again at each
  turn, and the index moves on by one after the action at \<open>i\<close> has been stepped, also
  when that action has just been removed from the list.
\<close>

function Action_step_loop :: "nat \<Rightarrow> real \<Rightarrow> world \<Rightarrow> nat \<Rightarrow> world result" where
  "Action_step_loop n dt w i =
     (if i < length (actionList w) then
        (let a = actionList w ! i in
         case Action__step n dt (actionHeap w a) (sprites w) (called w) of
           OutOfModel \<Rightarrow> OutOfModel
         | Threw e (act, st, calls) \<Rightarrow>
             Threw e (w\<lparr>actionHeap := (actionHeap w)(a := act), sprites := st, called := calls\<rparr>)
         | Returned (act, st, calls) \<Rightarrow>
             Action_step_loop n dt
               (w\<lparr>actionHeap := (actionHeap w)(a := act), sprites := st, called := calls,
                  actionList := (if action_done act then removeArrayItem (actionList w) a
                                 else actionList w)\<rparr>)
               (Suc i))
      else Returned w)"
  by pat_completeness auto
termination
  by (relation "measure (\<lambda>(n, dt, w, i). length (actionList w) - i)")
    (auto simp: removeArrayItem_def length_remove1)

declare Action_step_loop.simps [simp del]

definition Action_step :: "nat \<Rightarrow> real \<Rightarrow> world \<Rightarrow> world result" where
  "Action_step n dt w =
     (case Action_step_loop n dt w 0 of
        OutOfModel \<Rightarrow> OutOfModel
      | Threw e w1 \<Rightarrow> Threw e w1
      | Returned w1 \<Rightarrow> Returned (fold (\<lambda>l w2. Listener__step w2 l) (listenerList w1) w1))"


section \<open>Notions used to state the properties\<close>

subsection \<open>Sequences of property assignments\<close>

datatype assignment =
    Set_width real | Set_height real | Set_originX real | Set_originY real
  | Set_top real | Set_right real | Set_bottom real | Set_left real
  | Set_percentWidth real | Set_percentHeight real | Set_grid "real list"

fun assign :: "nat \<Rightarrow> store \<Rightarrow> nat \<Rightarrow> assignment \<Rightarrow> store option" where
  "assign n s i (Set_width v) = set_width n s i v"
| "assign n s i (Set_height v) = set_height n s i v"
| "assign n s i (Set_originX v) = Some (set_originX s i v)"
| "assign n s i (Set_originY v) = Some (set_originY s i v)"
| "assign n s i (Set_top v) = set_top n s i v"
| "assign n s i (Set_right v) = set_right n s i v"
| "assign n s i (Set_bottom v) = set_bottom n s i v"
| "assign n s i (Set_left v) = set_left n s i v"
| "assign n s i (Set_percentWidth v) = set_percentWidth n s i v"
| "assign n s i (Set_percentHeight v) = set_percentHeight n s i v"
| "assign n s i (Set_grid g) = Some (set_grid s i g)"

text \<open>A sequence of assignments, each to a property of the sprite named with it.\<close>

fun assigns :: "nat \<Rightarrow> store \<Rightarrow> (nat \<times> assignment) list \<Rightarrow> store option" where
  "assigns n s [] = Some s"
| "assigns n s ((i, a) # as) =
     (case assign n s i a of
        None \<Rightarrow> None
      | Some s1 \<Rightarrow> assigns n s1 as)"

fun is_size_or_origin :: "assignment \<Rightarrow> bool" where
  "is_size_or_origin (Set_width v) = True"
| "is_size_or_origin (Set_height v) = True"
| "is_size_or_origin (Set_originX v) = True"
| "is_size_or_origin (Set_originY v) = True"
| "is_size_or_origin _ = False"

fun is_pin_or_percent :: "assignment \<Rightarrow> bool" where
  "is_pin_or_percent (Set_top v) = True"
| "is_pin_or_percent (Set_right v) = True"
| "is_pin_or_percent (Set_bottom v) = True"
| "is_pin_or_percent (Set_left v) = True"
| "is_pin_or_percent (Set_percentWidth v) = True"
| "is_pin_or_percent (Set_percentHeight v) = True"
| "is_pin_or_percent _ = False"

subsection \<open>The cached origin offsets\<close>

definition originInvX :: "store \<Rightarrow> bool" where
  "originInvX s \<longleftrightarrow> (\<forall>j. originPixelX (s j) = originX (s j) * width (s j))"

definition originInvY :: "store \<Rightarrow> bool" where
  "originInvY s \<longleftrightarrow> (\<forall>j. originPixelY (s j) = originY (s j) * height (s j))"

subsection \<open>Trees\<close>

text \<open>
  A heap is a forest when some rank decreases from every sprite to each of its children:
  no sprite is then its own descendant, and the re-layout terminates.
\<close>

definition ranked :: "store \<Rightarrow> (nat \<Rightarrow> nat) \<Rightarrow> bool" where
  "ranked s rk \<longleftrightarrow> (\<forall>i cs c. children (s i) = Some cs \<longrightarrow> c \<in> set cs \<longrightarrow> rk c < rk i)"

subsection \<open>The fields a re-layout may write\<close>

definition eraseW :: "Sprite \<Rightarrow> Sprite" where
  "eraseW r = r\<lparr>width := 0, originPixelX := 0, x := 0\<rparr>"

definition sameButW :: "store \<Rightarrow> store \<Rightarrow> bool" where
  "sameButW s s' \<longleftrightarrow> (\<forall>j. eraseW (s' j) = eraseW (s j))"

definition eraseH :: "Sprite \<Rightarrow> Sprite" where
  "eraseH r = r\<lparr>height := 0, originPixelY := 0, y := 0\<rparr>"

definition sameButH :: "store \<Rightarrow> store \<Rightarrow> bool" where
  "sameButH s s' \<longleftrightarrow> (\<forall>j. eraseH (s' j) = eraseH (s j))"

subsection \<open>The frames shown by an animation\<close>

text \<open>
  \<open>frames_shown n i dts b st\<close> steps the behaviour \<open>b\<close> on the sprite \<open>i\<close> once for each
  elapsed time of \<open>dts\<close> and lists, after each step, the texture of the sprite and
  whether the behaviour is done.
\<close>

fun frames_shown ::
  "nat \<Rightarrow> nat \<Rightarrow> real list \<Rightarrow> IActionDefinition \<Rightarrow> store \<Rightarrow> (Texture nullable \<times> bool) list option"
where
  "frames_shown n i [] b st = Some []"
| "frames_shown n i (dt # dts) b st =
     (case step n dt (Some i) b st [] of
        Returned (b1, st1, calls) \<Rightarrow>
          (case frames_shown n i dts b1 st1 of
             None \<Rightarrow> None
           | Some obs \<Rightarrow> Some ((texture (st1 i), is_done b1) # obs))
      | _ \<Rightarrow> None)"

text \<open>
  The rule of the specification for a frame animation, to compare the code with: the
  elapsed time accumulates from tick to tick, and a tick at which the accumulated time
  reaches the interval makes one advance and starts the accumulation again.
  \<open>spec_advances iv acc k dts\<close> lists, after each tick of \<open>dts\<close>, the number of advances made
  so far, from the accumulated time \<open>acc\<close> and \<open>k\<close> advances.
\<close>

fun spec_advances :: "real \<Rightarrow> real \<Rightarrow> nat \<Rightarrow> real list \<Rightarrow> nat list" where
  "spec_advances iv acc k [] = []"
| "spec_advances iv acc k (dt # dts) =
     (if iv \<le> acc + dt then Suc k # spec_advances iv 0 (Suc k) dts
      else k # spec_advances iv (acc + dt) k dts)"

section \<open>An example scene\<close>

text \<open>
  A parent (sprite 0) with one child (sprite 1) that is pinned 10 from the left edge and
  20 from the right edge of the parent and centred vertically.
\<close>

definition scene :: store where
  "scene = (\<lambda>_. new_Sprite)
     (0 := new_Sprite\<lparr>children := Some [1]\<rparr>,
      1 := new_Sprite\<lparr>parent := Some 0, left := Some 10, right := Some 20,
                       alignY := Some CENTER\<rparr>)"

definition scene_rank :: "nat \<Rightarrow> nat" where
  "scene_rank i = (if i = 0 then 1 else 0)"

text \<open>
  A parent of 200 by 100 (sprite 0) with one child (sprite 1) that has no pin and no
  percent size yet.
\<close>

definition unpinned :: store where
  "unpinned = (\<lambda>_. new_Sprite)
     (0 := new_Sprite\<lparr>width := 200, height := 100, originPixelX := 100, originPixelY := 50,
                       children := Some [1]\<rparr>,
      1 := new_Sprite\<lparr>parent := Some 0\<rparr>)"

text \<open>
  The same parent with the child pinned 10 from its left edge and 20 from its right edge,
  laid out: the child is 170 wide and has no alignment.
\<close>

definition hemmed :: store where
  "hemmed = unpinned(1 := (unpinned 1)\<lparr>left := Some 10, right := Some 20, width := 170,
     x := 95, originPixelX := 85, autoResize := False\<rparr>)"

text \<open>The same scene with a texture of 64 by 32 on the parent, sized by it.\<close>

definition textured :: store where
  "textured = scene(0 := (scene 0)\<lparr>texture := Ref (Texture 7 True 64 32), width := 64,
     height := 32, originPixelX := 32, originPixelY := 16\<rparr>)"

section \<open>Example states of the engine\<close>

text \<open>
  \<open>idle\<close> is the engine before anything is started. \<open>queued\<close> has the action 0 with the
  queue then(7), wait(1), then(8), and \<open>chained\<close> is that action started. \<open>busy\<close> has the
  action 1 started and waiting 5, the action 0 with the same queue and not started, and a
  listener on the action 0 with the ALL callback 9. \<open>two_delays\<close> has
  the started actions 0 and 1, waiting 1 and 5. \<open>any_only\<close> has a listener on the action 0
  with one ANY callback and no ALL callback, and the action stopped; \<open>both_done\<close> has a
  listener on the actions 0 and 1 with an ANY and an ALL callback, and both actions stopped.
\<close>

definition idle :: world where
  "idle = \<lparr> sprites = (\<lambda>_. new_Sprite), actionHeap = (\<lambda>_. new_Action 0),
            listenerHeap = (\<lambda>_. new_Listener []), actionList = [], listenerList = [],
            called = [] \<rparr>"

definition queued :: world where
  "queued = Action_then (Action_wait (Action_then idle 0 7) 0 1) 0 8"

definition chained :: world where
  "chained = Action_start queued 0"

definition busy :: world where
  "busy = Listener_allDone (Action_listen
     (Action_then (Action_wait (Action_then (Action_start (Action_wait idle 1 5) 1) 0 7) 0 1) 0 8)
     0 [0]) 0 9"

definition two_delays :: world where
  "two_delays = Action_start (Action_start (Action_wait (Action_wait idle 0 1) 1 5) 0) 1"

definition any_only :: world where
  "any_only = Action_stop (Listener_anyDone (Action_listen idle 0 [0]) 0 5) 0"

definition both_done :: world where
  "both_done =
     Action_stop (Action_stop
       (Listener_allDone (Listener_anyDone (Action_listen idle 0 [0, 1]) 0 5) 0 6) 0) 1"

section \<open>Properties of the layout\<close>

subsection \<open>Induction over the width re-layout\<close>

lemma layoutW_induct:
  assumes P0: "\<And>n s i v. width (s i) = v \<Longrightarrow> P (Suc n) s i v s"
    and P1: "\<And>n s i v s2. width (s i) \<noteq> v \<Longrightarrow>
               s2 = adjustAlignX (s(i := (s i)\<lparr>width := v, originPixelX := v * originX (s i)\<rparr>)) i \<Longrightarrow>
               children (s2 i) = None \<Longrightarrow> P (Suc n) s i v s2"
    and P2: "\<And>n s i v s2 cs s'. width (s i) \<noteq> v \<Longrightarrow>
               s2 = adjustAlignX (s(i := (s i)\<lparr>width := v, originPixelX := v * originX (s i)\<rparr>)) i \<Longrightarrow>
               children (s2 i) = Some cs \<Longrightarrow>
               reLayoutChildrenOnWidthChanged n s2 cs = Some s' \<Longrightarrow> L n s2 cs s' \<Longrightarrow>
               P (Suc n) s i v s'"
    and Q0: "\<And>n s i. parent (s i) = None \<Longrightarrow> Q n s i s"
    and Q1: "\<And>n s i p l r s1. parent (s i) = Some p \<Longrightarrow> left (s i) = Some l \<Longrightarrow>
               right (s i) = Some r \<Longrightarrow>
               set_width n s i (width (s p) - l - r) = Some s1 \<Longrightarrow>
               P n s i (width (s p) - l - r) s1 \<Longrightarrow>
               Q n s i (s1(i := (s1 i)\<lparr>x := l + originPixelX (s1 i)\<rparr>))"
    and Q2: "\<And>n s i p pw s'. parent (s i) = Some p \<Longrightarrow>
               left (s i) = None \<or> right (s i) = None \<Longrightarrow>
               percentWidth (s i) = Some pw \<Longrightarrow>
               set_width n s i (width (s p) * pw) = Some s' \<Longrightarrow>
               P n s i (width (s p) * pw) s' \<Longrightarrow> Q n s i s'"
    and Q3: "\<And>n s i p. parent (s i) = Some p \<Longrightarrow>
               left (s i) = None \<or> right (s i) = None \<Longrightarrow>
               percentWidth (s i) = None \<Longrightarrow> Q n s i s"
    and L0: "\<And>n s. L n s [] s"
    and L1: "\<And>n s c cs s1 s'. resizeWidth n s c = Some s1 \<Longrightarrow> Q n s c s1 \<Longrightarrow>
               reLayoutChildrenOnWidthChanged n (adjustAlignX s1 c) cs = Some s' \<Longrightarrow>
               L n (adjustAlignX s1 c) cs s' \<Longrightarrow> L n s (c # cs) s'"
  shows "(\<forall>n s i v s'. set_width n s i v = Some s' \<longrightarrow> P n s i v s') \<and>
         (\<forall>n s i s'. resizeWidth n s i = Some s' \<longrightarrow> Q n s i s') \<and>
         (\<forall>n s cs s'. reLayoutChildrenOnWidthChanged n s cs = Some s' \<longrightarrow> L n s cs s')"
proof -
  have QfromP: "Q n s i s'"
    if a: "\<And>s i v s'. set_width n s i v = Some s' \<Longrightarrow> P n s i v s'"
      and b: "resizeWidth n s i = Some s'" for n s i s'
  proof (cases "parent (s i)")
    case None
    then show ?thesis using b Q0 by (simp add: resizeWidth.simps)
  next
    case (Some p)
    show ?thesis
    proof (cases "left (s i)")
      case None
      then show ?thesis using b Some Q2 Q3 a
        by (cases "percentWidth (s i)") (auto simp: resizeWidth.simps)
    next
      case l: (Some l)
      show ?thesis
      proof (cases "right (s i)")
        case None
        then show ?thesis using b Some l Q2 Q3 a
          by (cases "percentWidth (s i)") (auto simp: resizeWidth.simps)
      next
        case r: (Some r)
        then show ?thesis using b Some l Q1 a
          by (auto simp: resizeWidth.simps split: option.splits)
      qed
    qed
  qed
  have LfromQ: "L n s cs s'"
    if a: "\<And>s i s'. resizeWidth n s i = Some s' \<Longrightarrow> Q n s i s'"
      and b: "reLayoutChildrenOnWidthChanged n s cs = Some s'" for n s cs s'
    using b
  proof (induction cs arbitrary: s)
    case Nil
    then show ?case using L0 by simp
  next
    case (Cons c cs)
    then show ?case using a L1 by (auto split: option.splits)
  qed
  have Pall: "set_width n s i v = Some s' \<Longrightarrow> P n s i v s'" for n s i v s'
  proof (induction n arbitrary: s i v s')
    case 0
    then show ?case by simp
  next
    case (Suc n)
    have q: "\<And>s i s'. resizeWidth n s i = Some s' \<Longrightarrow> Q n s i s'"
      using QfromP Suc.IH by blast
    have l: "\<And>s cs s'. reLayoutChildrenOnWidthChanged n s cs = Some s' \<Longrightarrow> L n s cs s'"
      using LfromQ q by blast
    show ?case
    proof (cases "width (s i) = v")
      case True
      then show ?thesis using Suc.prems P0 by simp
    next
      case False
      then show ?thesis using Suc.prems P1 P2 l
        by (auto simp: Let_def split: option.splits)
    qed
  qed
  have Qall: "resizeWidth n s i = Some s' \<Longrightarrow> Q n s i s'" for n s i s'
    using QfromP Pall by blast
  have Lall: "reLayoutChildrenOnWidthChanged n s cs = Some s' \<Longrightarrow> L n s cs s'" for n s cs s'
    using LfromQ Qall by blast
  show ?thesis using Pall Qall Lall by blast
qed

subsection \<open>What the width re-layout leaves alone\<close>

lemma sameButW_refl: "sameButW s s"
  by (simp add: sameButW_def)

lemma sameButW_trans: "sameButW s t \<Longrightarrow> sameButW t u \<Longrightarrow> sameButW s u"
  by (simp add: sameButW_def)

lemma sameButW_upd:
  "eraseW r = eraseW (s i) \<Longrightarrow> sameButW s (s(i := r))"
  by (simp add: sameButW_def)

lemma sameButW_adjustAlignX: "sameButW s (adjustAlignX s i)"
  by (auto simp: adjustAlignX_def Let_def sameButW_def eraseW_def
      split: option.splits AlignType.splits)

lemma sameButW_fields:
  assumes "sameButW s s'"
  shows "children (s' j) = children (s j)" and "parent (s' j) = parent (s j)"
    and "left (s' j) = left (s j)" and "right (s' j) = right (s j)"
    and "percentWidth (s' j) = percentWidth (s j)" and "alignX (s' j) = alignX (s j)"
    and "originX (s' j) = originX (s j)" and "autoResize (s' j) = autoResize (s j)"
    and "texture (s' j) = texture (s j)" and "height (s' j) = height (s j)"
    and "originPixelY (s' j) = originPixelY (s j)" and "originY (s' j) = originY (s j)"
    and "y (s' j) = y (s j)" and "top (s' j) = top (s j)" and "bottom (s' j) = bottom (s j)"
    and "percentHeight (s' j) = percentHeight (s j)" and "alignY (s' j) = alignY (s j)"
    and "stage (s' j) = stage (s j)"
proof -
  have e: "eraseW (s' j) = eraseW (s j)" using assms by (simp add: sameButW_def)
  show "children (s' j) = children (s j)"
    using arg_cong [OF e, of children] by (simp add: eraseW_def)
  show "parent (s' j) = parent (s j)"
    using arg_cong [OF e, of parent] by (simp add: eraseW_def)
  show "left (s' j) = left (s j)"
    using arg_cong [OF e, of left] by (simp add: eraseW_def)
  show "right (s' j) = right (s j)"
    using arg_cong [OF e, of right] by (simp add: eraseW_def)
  show "percentWidth (s' j) = percentWidth (s j)"
    using arg_cong [OF e, of percentWidth] by (simp add: eraseW_def)
  show "alignX (s' j) = alignX (s j)"
    using arg_cong [OF e, of alignX] by (simp add: eraseW_def)
  show "originX (s' j) = originX (s j)"
    using arg_cong [OF e, of originX] by (simp add: eraseW_def)
  show "autoResize (s' j) = autoResize (s j)"
    using arg_cong [OF e, of autoResize] by (simp add: eraseW_def)
  show "texture (s' j) = texture (s j)"
    using arg_cong [OF e, of texture] by (simp add: eraseW_def)
  show "height (s' j) = height (s j)"
    using arg_cong [OF e, of height] by (simp add: eraseW_def)
  show "originPixelY (s' j) = originPixelY (s j)"
    using arg_cong [OF e, of originPixelY] by (simp add: eraseW_def)
  show "originY (s' j) = originY (s j)"
    using arg_cong [OF e, of originY] by (simp add: eraseW_def)
  show "y (s' j) = y (s j)"
    using arg_cong [OF e, of y] by (simp add: eraseW_def)
  show "top (s' j) = top (s j)"
    using arg_cong [OF e, of top] by (simp add: eraseW_def)
  show "bottom (s' j) = bottom (s j)"
    using arg_cong [OF e, of bottom] by (simp add: eraseW_def)
  show "percentHeight (s' j) = percentHeight (s j)"
    using arg_cong [OF e, of percentHeight] by (simp add: eraseW_def)
  show "alignY (s' j) = alignY (s j)"
    using arg_cong [OF e, of alignY] by (simp add: eraseW_def)
  show "stage (s' j) = stage (s j)"
    using arg_cong [OF e, of stage] by (simp add: eraseW_def)
qed

lemma sameButW_layout_all:
  "(\<forall>n s i v s'. set_width n s i v = Some s' \<longrightarrow> sameButW s s') \<and>
   (\<forall>n s i s'. resizeWidth n s i = Some s' \<longrightarrow> sameButW s s') \<and>
   (\<forall>n s cs s'. reLayoutChildrenOnWidthChanged n s cs = Some s' \<longrightarrow> sameButW s s')"
proof (rule layoutW_induct
    [where P = "\<lambda>n s i v s'. sameButW s s'" and Q = "\<lambda>n s i s'. sameButW s s'"
       and L = "\<lambda>n s cs s'. sameButW s s'"], goal_cases)
  case (1 n s i v)
  show ?case by (rule sameButW_refl)
next
  case (2 n s i v s2)
  have "sameButW s (s(i := (s i)\<lparr>width := v, originPixelX := v * originX (s i)\<rparr>))"
    by (rule sameButW_upd) (simp add: eraseW_def)
  then show ?case using 2 sameButW_adjustAlignX sameButW_trans by blast
next
  case (3 n s i v s2 cs s')
  have "sameButW s (s(i := (s i)\<lparr>width := v, originPixelX := v * originX (s i)\<rparr>))"
    by (rule sameButW_upd) (simp add: eraseW_def)
  then have "sameButW s s2" using 3 sameButW_adjustAlignX sameButW_trans by blast
  then show ?case using 3 sameButW_trans by blast
next
  case (4 n s i)
  show ?case by (rule sameButW_refl)
next
  case (5 n s i p l r s1)
  have "sameButW s1 (s1(i := (s1 i)\<lparr>x := l + originPixelX (s1 i)\<rparr>))"
    by (rule sameButW_upd) (simp add: eraseW_def)
  then show ?case using 5 sameButW_trans by blast
next
  case (6 n s i p pw s')
  then show ?case by simp
next
  case (7 n s i p)
  show ?case by (rule sameButW_refl)
next
  case (8 n s)
  show ?case by (rule sameButW_refl)
next
  case (9 n s c cs s1 s')
  then show ?case using sameButW_adjustAlignX sameButW_trans by blast
qed

lemma sameButW_set_width: "set_width n s i v = Some s' \<Longrightarrow> sameButW s s'"
  using sameButW_layout_all by blast

lemma sameButW_resizeWidth: "resizeWidth n s i = Some s' \<Longrightarrow> sameButW s s'"
  using sameButW_layout_all by blast

lemma sameButW_reLayout:
  "reLayoutChildrenOnWidthChanged n s cs = Some s' \<Longrightarrow> sameButW s s'"
  using sameButW_layout_all by blast


subsection \<open>The width re-layout keeps the cached horizontal offset\<close>

lemma originInvX_upd:
  "originInvX s \<Longrightarrow> originPixelX r = originX r * width r \<Longrightarrow> originInvX (s(i := r))"
  by (simp add: originInvX_def)

lemma originInvX_adjustAlignX: "originInvX s \<Longrightarrow> originInvX (adjustAlignX s i)"
  by (auto simp: adjustAlignX_def Let_def originInvX_def split: option.splits AlignType.splits)

lemma originInvX_layout_all:
  "(\<forall>n s i v s'. set_width n s i v = Some s' \<longrightarrow> originInvX s \<longrightarrow> originInvX s') \<and>
   (\<forall>n s i s'. resizeWidth n s i = Some s' \<longrightarrow> originInvX s \<longrightarrow> originInvX s') \<and>
   (\<forall>n s cs s'. reLayoutChildrenOnWidthChanged n s cs = Some s' \<longrightarrow>
      originInvX s \<longrightarrow> originInvX s')"
proof (rule layoutW_induct
    [where P = "\<lambda>n s i v s'. originInvX s \<longrightarrow> originInvX s'"
       and Q = "\<lambda>n s i s'. originInvX s \<longrightarrow> originInvX s'"
       and L = "\<lambda>n s cs s'. originInvX s \<longrightarrow> originInvX s'"], goal_cases)
  case (2 n s i v s2)
  have "originInvX s \<Longrightarrow>
        originInvX (s(i := (s i)\<lparr>width := v, originPixelX := v * originX (s i)\<rparr>))"
    by (rule originInvX_upd) simp_all
  then show ?case using 2 originInvX_adjustAlignX by blast
next
  case (3 n s i v s2 cs s')
  have "originInvX s \<Longrightarrow>
        originInvX (s(i := (s i)\<lparr>width := v, originPixelX := v * originX (s i)\<rparr>))"
    by (rule originInvX_upd) simp_all
  then show ?case using 3 originInvX_adjustAlignX by blast
next
  case (5 n s i p l r s1)
  have "originInvX s1 \<Longrightarrow> originInvX (s1(i := (s1 i)\<lparr>x := l + originPixelX (s1 i)\<rparr>))"
    by (rule originInvX_upd) (simp_all add: originInvX_def)
  then show ?case using 5 by blast
next
  case (9 n s c cs s1 s')
  then show ?case using originInvX_adjustAlignX by blast
qed simp_all

lemma originInvX_set_width:
  "set_width n s i v = Some s' \<Longrightarrow> originInvX s \<Longrightarrow> originInvX s'"
  using originInvX_layout_all by blast

lemma originInvX_resizeWidth:
  "resizeWidth n s i = Some s' \<Longrightarrow> originInvX s \<Longrightarrow> originInvX s'"
  using originInvX_layout_all by blast

subsection \<open>Trees: the children of a sprite lie strictly below it\<close>

lemma ranked_children_eq:
  "ranked s rk \<Longrightarrow> (\<And>j. children (s' j) = children (s j)) \<Longrightarrow> ranked s' rk"
  by (simp add: ranked_def)

lemma ranked_sameButW: "ranked s rk \<Longrightarrow> sameButW s s' \<Longrightarrow> ranked s' rk"
  using ranked_children_eq sameButW_fields(1) by blast

lemma ranked_child: "ranked s rk \<Longrightarrow> children (s i) = Some cs \<Longrightarrow> c \<in> set cs \<Longrightarrow> rk c < rk i"
  by (auto simp: ranked_def)

lemma resizeWidth_total_step:
  assumes "\<And>s v. ranked s rk \<Longrightarrow> \<exists>s'. set_width n s i v = Some s'"
    and "ranked s rk"
  shows "\<exists>s'. resizeWidth n s i = Some s'"
proof (cases "parent (s i)")
  case None
  then show ?thesis by (simp add: resizeWidth.simps)
next
  case (Some p)
  obtain s1 where "set_width n s i (width (s p) - the (left (s i)) - the (right (s i))) = Some s1"
    using assms by blast
  moreover obtain s2 where "set_width n s i (width (s p) * the (percentWidth (s i))) = Some s2"
    using assms by blast
  ultimately show ?thesis using Some
    by (auto simp: resizeWidth.simps split: option.splits)
qed

lemma reLayoutW_total_step:
  assumes "\<And>s i v. ranked s rk \<Longrightarrow> rk i < n \<Longrightarrow> \<exists>s'. set_width n s i v = Some s'"
  shows "ranked s rk \<Longrightarrow> \<forall>c\<in>set cs. rk c < n \<Longrightarrow>
         \<exists>s'. reLayoutChildrenOnWidthChanged n s cs = Some s'"
proof (induction cs arbitrary: s)
  case Nil
  then show ?case by simp
next
  case (Cons c cs)
  have "\<exists>s1. resizeWidth n s c = Some s1"
    using resizeWidth_total_step [of rk n c s] assms Cons.prems by simp
  then obtain s1 where s1: "resizeWidth n s c = Some s1" by blast
  have "ranked (adjustAlignX s1 c) rk"
    using Cons.prems(1) s1 sameButW_resizeWidth sameButW_adjustAlignX ranked_sameButW by blast
  then show ?case using Cons.IH [of "adjustAlignX s1 c"] Cons.prems s1 by simp
qed

lemma set_width_total:
  "ranked s rk \<Longrightarrow> rk i < n \<Longrightarrow> \<exists>s'. set_width n s i v = Some s'"
proof (induction n arbitrary: s i v)
  case 0
  then show ?case by simp
next
  case (Suc n)
  show ?case
  proof (cases "width (s i) = v")
    case True
    then show ?thesis by simp
  next
    case False
    let ?s2 = "adjustAlignX (s(i := (s i)\<lparr>width := v, originPixelX := v * originX (s i)\<rparr>)) i"
    have "sameButW s (s(i := (s i)\<lparr>width := v, originPixelX := v * originX (s i)\<rparr>))"
      by (rule sameButW_upd) (simp add: eraseW_def)
    then have sb: "sameButW s ?s2"
      using sameButW_adjustAlignX sameButW_trans by blast
    have r2: "ranked ?s2 rk" using Suc.prems(1) sb ranked_sameButW by blast
    show ?thesis
    proof (cases "children (?s2 i)")
      case None
      then show ?thesis using False by (simp add: Let_def)
    next
      case (Some cs)
      have "\<forall>c\<in>set cs. rk c < n"
        using ranked_child [OF r2 Some] Suc.prems(2) by fastforce
      then have "\<exists>s'. reLayoutChildrenOnWidthChanged n ?s2 cs = Some s'"
        using reLayoutW_total_step [of rk n ?s2 cs] Suc.IH r2 by blast
      then show ?thesis using False Some by (simp add: Let_def)
    qed
  qed
qed

lemma resizeWidth_total:
  "ranked s rk \<Longrightarrow> rk i < n \<Longrightarrow> \<exists>s'. resizeWidth n s i = Some s'"
  using resizeWidth_total_step [of rk n i s] set_width_total by blast


subsection \<open>On a tree, a width assignment only reaches the sprite and what lies below it\<close>

lemma adjustAlignX_other: "j \<noteq> i \<Longrightarrow> adjustAlignX s i j = s j"
  by (auto simp: adjustAlignX_def Let_def split: option.splits AlignType.splits)

lemma frameW_layout_all:
  "(\<forall>n s i v s'. set_width n s i v = Some s' \<longrightarrow>
      (ranked s rk \<longrightarrow> (\<forall>j. j \<noteq> i \<and> \<not> rk j < rk i \<longrightarrow> s' j = s j) \<and>
         s' i = (if width (s i) = v then s i
                 else adjustAlignX (s(i := (s i)\<lparr>width := v, originPixelX := v * originX (s i)\<rparr>)) i i))) \<and>
   (\<forall>n s i s'. resizeWidth n s i = Some s' \<longrightarrow>
      (ranked s rk \<longrightarrow> (\<forall>j. j \<noteq> i \<and> \<not> rk j < rk i \<longrightarrow> s' j = s j))) \<and>
   (\<forall>n s cs s'. reLayoutChildrenOnWidthChanged n s cs = Some s' \<longrightarrow>
      (ranked s rk \<longrightarrow> (\<forall>j. (\<forall>c\<in>set cs. j \<noteq> c \<and> \<not> rk j < rk c) \<longrightarrow> s' j = s j)))"
proof (rule layoutW_induct
    [where P = "\<lambda>n s i v s'. ranked s rk \<longrightarrow> (\<forall>j. j \<noteq> i \<and> \<not> rk j < rk i \<longrightarrow> s' j = s j) \<and>
         s' i = (if width (s i) = v then s i
                 else adjustAlignX (s(i := (s i)\<lparr>width := v, originPixelX := v * originX (s i)\<rparr>)) i i)"
       and Q = "\<lambda>n s i s'. ranked s rk \<longrightarrow> (\<forall>j. j \<noteq> i \<and> \<not> rk j < rk i \<longrightarrow> s' j = s j)"
       and L = "\<lambda>n s cs s'. ranked s rk \<longrightarrow>
                  (\<forall>j. (\<forall>c\<in>set cs. j \<noteq> c \<and> \<not> rk j < rk c) \<longrightarrow> s' j = s j)"], goal_cases)
  case (1 n s i v)
  then show ?case by simp
next
  case (2 n s i v s2)
  then show ?case by (simp add: adjustAlignX_other)
next
  case (3 n s i v s2 cs s')
  show ?case
  proof (intro impI)
    assume r: "ranked s rk"
    have "sameButW s (s(i := (s i)\<lparr>width := v, originPixelX := v * originX (s i)\<rparr>))"
      by (rule sameButW_upd) (simp add: eraseW_def)
    then have sb: "sameButW s s2"
      using 3(2) sameButW_adjustAlignX sameButW_trans by blast
    have r2: "ranked s2 rk" using r sb ranked_sameButW by blast
    have below: "\<forall>c\<in>set cs. rk c < rk i"
      using ranked_child [OF r2 3(3)] by blast
    have fr: "\<forall>j. (\<forall>c\<in>set cs. j \<noteq> c \<and> \<not> rk j < rk c) \<longrightarrow> s' j = s2 j"
      using 3(5) r2 by blast
    have "s' i = s2 i" using fr below by fastforce
    moreover have "s' j = s j" if "j \<noteq> i" "\<not> rk j < rk i" for j
    proof -
      have "s' j = s2 j" using fr below that by fastforce
      then show ?thesis using that 3(2) by (simp add: adjustAlignX_other)
    qed
    ultimately show "(\<forall>j. j \<noteq> i \<and> \<not> rk j < rk i \<longrightarrow> s' j = s j) \<and>
         s' i = (if width (s i) = v then s i
                 else adjustAlignX (s(i := (s i)\<lparr>width := v, originPixelX := v * originX (s i)\<rparr>)) i i)"
      using 3(1,2) by simp
  qed
next
  case (4 n s i)
  then show ?case by simp
next
  case (5 n s i p l r s1)
  then show ?case by simp
next
  case (6 n s i p pw s')
  then show ?case by simp
next
  case (7 n s i p)
  then show ?case by simp
next
  case (8 n s)
  then show ?case by simp
next
  case (9 n s c cs s1 s')
  show ?case
  proof (intro impI allI)
    fix j
    assume r: "ranked s rk" and j: "\<forall>c'\<in>set (c # cs). j \<noteq> c' \<and> \<not> rk j < rk c'"
    have r1: "ranked (adjustAlignX s1 c) rk"
      using r 9(1) sameButW_resizeWidth sameButW_adjustAlignX ranked_sameButW by blast
    have "s' j = adjustAlignX s1 c j" using 9(4) r1 j by simp
    also have "\<dots> = s1 j" using j by (simp add: adjustAlignX_other)
    also have "\<dots> = s j" using 9(2) r j by simp
    finally show "s' j = s j" .
  qed
qed

lemma set_width_frame:
  "set_width n s i v = Some s' \<Longrightarrow> ranked s rk \<Longrightarrow> j \<noteq> i \<Longrightarrow> \<not> rk j < rk i \<Longrightarrow> s' j = s j"
  using frameW_layout_all [of rk] by blast

lemma set_width_self:
  "set_width n s i v = Some s' \<Longrightarrow> ranked s rk \<Longrightarrow>
   s' i = (if width (s i) = v then s i
           else adjustAlignX (s(i := (s i)\<lparr>width := v, originPixelX := v * originX (s i)\<rparr>)) i i)"
  using frameW_layout_all [of rk] by blast

lemma resizeWidth_frame:
  "resizeWidth n s i = Some s' \<Longrightarrow> ranked s rk \<Longrightarrow> j \<noteq> i \<Longrightarrow> \<not> rk j < rk i \<Longrightarrow> s' j = s j"
  using frameW_layout_all [of rk] by blast

lemma adjustAlignX_width: "width (adjustAlignX s i j) = width (s j)"
  by (auto simp: adjustAlignX_def Let_def split: option.splits AlignType.splits)

lemma adjustAlignX_originPixelX: "originPixelX (adjustAlignX s i j) = originPixelX (s j)"
  by (auto simp: adjustAlignX_def Let_def split: option.splits AlignType.splits)

lemma set_width_width:
  "set_width n s i v = Some s' \<Longrightarrow> ranked s rk \<Longrightarrow> width (s' i) = v"
  using set_width_self [of n s i v s' rk] by (auto simp: adjustAlignX_width)

subsection \<open>Induction over the height re-layout\<close>

lemma layoutH_induct:
  assumes P0: "\<And>n s i v. height (s i) = v \<Longrightarrow> P (Suc n) s i v s"
    and P1: "\<And>n s i v s2. height (s i) \<noteq> v \<Longrightarrow>
               s2 = adjustAlignY (s(i := (s i)\<lparr>height := v, originPixelY := v * originY (s i)\<rparr>)) i \<Longrightarrow>
               children (s2 i) = None \<Longrightarrow> P (Suc n) s i v s2"
    and P2: "\<And>n s i v s2 cs s'. height (s i) \<noteq> v \<Longrightarrow>
               s2 = adjustAlignY (s(i := (s i)\<lparr>height := v, originPixelY := v * originY (s i)\<rparr>)) i \<Longrightarrow>
               children (s2 i) = Some cs \<Longrightarrow>
               reLayoutChildrenOnHeightChanged n s2 cs = Some s' \<Longrightarrow> L n s2 cs s' \<Longrightarrow>
               P (Suc n) s i v s'"
    and Q0: "\<And>n s i. parent (s i) = None \<Longrightarrow> Q n s i s"
    and Q1: "\<And>n s i p l r s1. parent (s i) = Some p \<Longrightarrow> top (s i) = Some l \<Longrightarrow>
               bottom (s i) = Some r \<Longrightarrow>
               set_height n s i (height (s p) - l - r) = Some s1 \<Longrightarrow>
               P n s i (height (s p) - l - r) s1 \<Longrightarrow>
               Q n s i (s1(i := (s1 i)\<lparr>y := l + originPixelY (s1 i)\<rparr>))"
    and Q2: "\<And>n s i p pw s'. parent (s i) = Some p \<Longrightarrow>
               top (s i) = None \<or> bottom (s i) = None \<Longrightarrow>
               percentHeight (s i) = Some pw \<Longrightarrow>
               set_height n s i (height (s p) * pw) = Some s' \<Longrightarrow>
               P n s i (height (s p) * pw) s' \<Longrightarrow> Q n s i s'"
    and Q3: "\<And>n s i p. parent (s i) = Some p \<Longrightarrow>
               top (s i) = None \<or> bottom (s i) = None \<Longrightarrow>
               percentHeight (s i) = None \<Longrightarrow> Q n s i s"
    and L0: "\<And>n s. L n s [] s"
    and L1: "\<And>n s c cs s1 s'. resizeHeight n s c = Some s1 \<Longrightarrow> Q n s c s1 \<Longrightarrow>
               reLayoutChildrenOnHeightChanged n (adjustAlignY s1 c) cs = Some s' \<Longrightarrow>
               L n (adjustAlignY s1 c) cs s' \<Longrightarrow> L n s (c # cs) s'"
  shows "(\<forall>n s i v s'. set_height n s i v = Some s' \<longrightarrow> P n s i v s') \<and>
         (\<forall>n s i s'. resizeHeight n s i = Some s' \<longrightarrow> Q n s i s') \<and>
         (\<forall>n s cs s'. reLayoutChildrenOnHeightChanged n s cs = Some s' \<longrightarrow> L n s cs s')"
proof -
  have QfromP: "Q n s i s'"
    if a: "\<And>s i v s'. set_height n s i v = Some s' \<Longrightarrow> P n s i v s'"
      and b: "resizeHeight n s i = Some s'" for n s i s'
  proof (cases "parent (s i)")
    case None
    then show ?thesis using b Q0 by (simp add: resizeHeight.simps)
  next
    case (Some p)
    show ?thesis
    proof (cases "top (s i)")
      case None
      then show ?thesis using b Some Q2 Q3 a
        by (cases "percentHeight (s i)") (auto simp: resizeHeight.simps)
    next
      case l: (Some l)
      show ?thesis
      proof (cases "bottom (s i)")
        case None
        then show ?thesis using b Some l Q2 Q3 a
          by (cases "percentHeight (s i)") (auto simp: resizeHeight.simps)
      next
        case r: (Some r)
        then show ?thesis using b Some l Q1 a
          by (auto simp: resizeHeight.simps split: option.splits)
      qed
    qed
  qed
  have LfromQ: "L n s cs s'"
    if a: "\<And>s i s'. resizeHeight n s i = Some s' \<Longrightarrow> Q n s i s'"
      and b: "reLayoutChildrenOnHeightChanged n s cs = Some s'" for n s cs s'
    using b
  proof (induction cs arbitrary: s)
    case Nil
    then show ?case using L0 by simp
  next
    case (Cons c cs)
    then show ?case using a L1 by (auto split: option.splits)
  qed
  have Pall: "set_height n s i v = Some s' \<Longrightarrow> P n s i v s'" for n s i v s'
  proof (induction n arbitrary: s i v s')
    case 0
    then show ?case by simp
  next
    case (Suc n)
    have q: "\<And>s i s'. resizeHeight n s i = Some s' \<Longrightarrow> Q n s i s'"
      using QfromP Suc.IH by blast
    have l: "\<And>s cs s'. reLayoutChildrenOnHeightChanged n s cs = Some s' \<Longrightarrow> L n s cs s'"
      using LfromQ q by blast
    show ?case
    proof (cases "height (s i) = v")
      case True
      then show ?thesis using Suc.prems P0 by simp
    next
      case False
      then show ?thesis using Suc.prems P1 P2 l
        by (auto simp: Let_def split: option.splits)
    qed
  qed
  have Qall: "resizeHeight n s i = Some s' \<Longrightarrow> Q n s i s'" for n s i s'
    using QfromP Pall by blast
  have Lall: "reLayoutChildrenOnHeightChanged n s cs = Some s' \<Longrightarrow> L n s cs s'" for n s cs s'
    using LfromQ Qall by blast
  show ?thesis using Pall Qall Lall by blast
qed

subsection \<open>What the height re-layout leaves alone\<close>

lemma sameButH_refl: "sameButH s s"
  by (simp add: sameButH_def)

lemma sameButH_trans: "sameButH s t \<Longrightarrow> sameButH t u \<Longrightarrow> sameButH s u"
  by (simp add: sameButH_def)

lemma sameButH_upd:
  "eraseH r = eraseH (s i) \<Longrightarrow> sameButH s (s(i := r))"
  by (simp add: sameButH_def)

lemma sameButH_adjustAlignY: "sameButH s (adjustAlignY s i)"
  by (auto simp: adjustAlignY_def Let_def sameButH_def eraseH_def
      split: option.splits AlignType.splits)

lemma sameButH_fields:
  assumes "sameButH s s'"
  shows "children (s' j) = children (s j)" and "parent (s' j) = parent (s j)"
    and "top (s' j) = top (s j)" and "bottom (s' j) = bottom (s j)"
    and "percentHeight (s' j) = percentHeight (s j)" and "alignY (s' j) = alignY (s j)"
    and "originY (s' j) = originY (s j)" and "autoResize (s' j) = autoResize (s j)"
    and "texture (s' j) = texture (s j)" and "width (s' j) = width (s j)"
    and "originPixelX (s' j) = originPixelX (s j)" and "originX (s' j) = originX (s j)"
    and "x (s' j) = x (s j)" and "left (s' j) = left (s j)" and "right (s' j) = right (s j)"
    and "percentWidth (s' j) = percentWidth (s j)" and "alignX (s' j) = alignX (s j)"
    and "stage (s' j) = stage (s j)"
proof -
  have e: "eraseH (s' j) = eraseH (s j)" using assms by (simp add: sameButH_def)
  show "children (s' j) = children (s j)"
    using arg_cong [OF e, of children] by (simp add: eraseH_def)
  show "parent (s' j) = parent (s j)"
    using arg_cong [OF e, of parent] by (simp add: eraseH_def)
  show "top (s' j) = top (s j)"
    using arg_cong [OF e, of top] by (simp add: eraseH_def)
  show "bottom (s' j) = bottom (s j)"
    using arg_cong [OF e, of bottom] by (simp add: eraseH_def)
  show "percentHeight (s' j) = percentHeight (s j)"
    using arg_cong [OF e, of percentHeight] by (simp add: eraseH_def)
  show "alignY (s' j) = alignY (s j)"
    using arg_cong [OF e, of alignY] by (simp add: eraseH_def)
  show "originY (s' j) = originY (s j)"
    using arg_cong [OF e, of originY] by (simp add: eraseH_def)
  show "autoResize (s' j) = autoResize (s j)"
    using arg_cong [OF e, of autoResize] by (simp add: eraseH_def)
  show "texture (s' j) = texture (s j)"
    using arg_cong [OF e, of texture] by (simp add: eraseH_def)
  show "width (s' j) = width (s j)"
    using arg_cong [OF e, of width] by (simp add: eraseH_def)
  show "originPixelX (s' j) = originPixelX (s j)"
    using arg_cong [OF e, of originPixelX] by (simp add: eraseH_def)
  show "originX (s' j) = originX (s j)"
    using arg_cong [OF e, of originX] by (simp add: eraseH_def)
  show "x (s' j) = x (s j)"
    using arg_cong [OF e, of x] by (simp add: eraseH_def)
  show "left (s' j) = left (s j)"
    using arg_cong [OF e, of left] by (simp add: eraseH_def)
  show "right (s' j) = right (s j)"
    using arg_cong [OF e, of right] by (simp add: eraseH_def)
  show "percentWidth (s' j) = percentWidth (s j)"
    using arg_cong [OF e, of percentWidth] by (simp add: eraseH_def)
  show "alignX (s' j) = alignX (s j)"
    using arg_cong [OF e, of alignX] by (simp add: eraseH_def)
  show "stage (s' j) = stage (s j)"
    using arg_cong [OF e, of stage] by (simp add: eraseH_def)
qed

lemma sameButH_layout_all:
  "(\<forall>n s i v s'. set_height n s i v = Some s' \<longrightarrow> sameButH s s') \<and>
   (\<forall>n s i s'. resizeHeight n s i = Some s' \<longrightarrow> sameButH s s') \<and>
   (\<forall>n s cs s'. reLayoutChildrenOnHeightChanged n s cs = Some s' \<longrightarrow> sameButH s s')"
proof (rule layoutH_induct
    [where P = "\<lambda>n s i v s'. sameButH s s'" and Q = "\<lambda>n s i s'. sameButH s s'"
       and L = "\<lambda>n s cs s'. sameButH s s'"], goal_cases)
  case (1 n s i v)
  show ?case by (rule sameButH_refl)
next
  case (2 n s i v s2)
  have "sameButH s (s(i := (s i)\<lparr>height := v, originPixelY := v * originY (s i)\<rparr>))"
    by (rule sameButH_upd) (simp add: eraseH_def)
  then show ?case using 2 sameButH_adjustAlignY sameButH_trans by blast
next
  case (3 n s i v s2 cs s')
  have "sameButH s (s(i := (s i)\<lparr>height := v, originPixelY := v * originY (s i)\<rparr>))"
    by (rule sameButH_upd) (simp add: eraseH_def)
  then have "sameButH s s2" using 3 sameButH_adjustAlignY sameButH_trans by blast
  then show ?case using 3 sameButH_trans by blast
next
  case (4 n s i)
  show ?case by (rule sameButH_refl)
next
  case (5 n s i p l r s1)
  have "sameButH s1 (s1(i := (s1 i)\<lparr>y := l + originPixelY (s1 i)\<rparr>))"
    by (rule sameButH_upd) (simp add: eraseH_def)
  then show ?case using 5 sameButH_trans by blast
next
  case (6 n s i p pw s')
  then show ?case by simp
next
  case (7 n s i p)
  show ?case by (rule sameButH_refl)
next
  case (8 n s)
  show ?case by (rule sameButH_refl)
next
  case (9 n s c cs s1 s')
  then show ?case using sameButH_adjustAlignY sameButH_trans by blast
qed

lemma sameButH_set_height: "set_height n s i v = Some s' \<Longrightarrow> sameButH s s'"
  using sameButH_layout_all by blast

lemma sameButH_resizeHeight: "resizeHeight n s i = Some s' \<Longrightarrow> sameButH s s'"
  using sameButH_layout_all by blast

lemma sameButH_reLayout:
  "reLayoutChildrenOnHeightChanged n s cs = Some s' \<Longrightarrow> sameButH s s'"
  using sameButH_layout_all by blast


subsection \<open>The height re-layout keeps the cached vertical offset\<close>

lemma originInvY_upd:
  "originInvY s \<Longrightarrow> originPixelY r = originY r * height r \<Longrightarrow> originInvY (s(i := r))"
  by (simp add: originInvY_def)

lemma originInvY_adjustAlignY: "originInvY s \<Longrightarrow> originInvY (adjustAlignY s i)"
  by (auto simp: adjustAlignY_def Let_def originInvY_def split: option.splits AlignType.splits)

lemma originInvY_layout_all:
  "(\<forall>n s i v s'. set_height n s i v = Some s' \<longrightarrow> originInvY s \<longrightarrow> originInvY s') \<and>
   (\<forall>n s i s'. resizeHeight n s i = Some s' \<longrightarrow> originInvY s \<longrightarrow> originInvY s') \<and>
   (\<forall>n s cs s'. reLayoutChildrenOnHeightChanged n s cs = Some s' \<longrightarrow>
      originInvY s \<longrightarrow> originInvY s')"
proof (rule layoutH_induct
    [where P = "\<lambda>n s i v s'. originInvY s \<longrightarrow> originInvY s'"
       and Q = "\<lambda>n s i s'. originInvY s \<longrightarrow> originInvY s'"
       and L = "\<lambda>n s cs s'. originInvY s \<longrightarrow> originInvY s'"], goal_cases)
  case (2 n s i v s2)
  have "originInvY s \<Longrightarrow>
        originInvY (s(i := (s i)\<lparr>height := v, originPixelY := v * originY (s i)\<rparr>))"
    by (rule originInvY_upd) simp_all
  then show ?case using 2 originInvY_adjustAlignY by blast
next
  case (3 n s i v s2 cs s')
  have "originInvY s \<Longrightarrow>
        originInvY (s(i := (s i)\<lparr>height := v, originPixelY := v * originY (s i)\<rparr>))"
    by (rule originInvY_upd) simp_all
  then show ?case using 3 originInvY_adjustAlignY by blast
next
  case (5 n s i p l r s1)
  have "originInvY s1 \<Longrightarrow> originInvY (s1(i := (s1 i)\<lparr>y := l + originPixelY (s1 i)\<rparr>))"
    by (rule originInvY_upd) (simp_all add: originInvY_def)
  then show ?case using 5 by blast
next
  case (9 n s c cs s1 s')
  then show ?case using originInvY_adjustAlignY by blast
qed simp_all

lemma originInvY_set_height:
  "set_height n s i v = Some s' \<Longrightarrow> originInvY s \<Longrightarrow> originInvY s'"
  using originInvY_layout_all by blast

lemma originInvY_resizeHeight:
  "resizeHeight n s i = Some s' \<Longrightarrow> originInvY s \<Longrightarrow> originInvY s'"
  using originInvY_layout_all by blast

lemma ranked_sameButH: "ranked s rk \<Longrightarrow> sameButH s s' \<Longrightarrow> ranked s' rk"
  using ranked_children_eq sameButH_fields(1) by blast

lemma resizeHeight_total_step:
  assumes "\<And>s v. ranked s rk \<Longrightarrow> \<exists>s'. set_height n s i v = Some s'"
    and "ranked s rk"
  shows "\<exists>s'. resizeHeight n s i = Some s'"
proof (cases "parent (s i)")
  case None
  then show ?thesis by (simp add: resizeHeight.simps)
next
  case (Some p)
  obtain s1 where "set_height n s i (height (s p) - the (top (s i)) - the (bottom (s i))) = Some s1"
    using assms by blast
  moreover obtain s2 where "set_height n s i (height (s p) * the (percentHeight (s i))) = Some s2"
    using assms by blast
  ultimately show ?thesis using Some
    by (auto simp: resizeHeight.simps split: option.splits)
qed

lemma reLayoutH_total_step:
  assumes "\<And>s i v. ranked s rk \<Longrightarrow> rk i < n \<Longrightarrow> \<exists>s'. set_height n s i v = Some s'"
  shows "ranked s rk \<Longrightarrow> \<forall>c\<in>set cs. rk c < n \<Longrightarrow>
         \<exists>s'. reLayoutChildrenOnHeightChanged n s cs = Some s'"
proof (induction cs arbitrary: s)
  case Nil
  then show ?case by simp
next
  case (Cons c cs)
  have "\<exists>s1. resizeHeight n s c = Some s1"
    using resizeHeight_total_step [of rk n c s] assms Cons.prems by simp
  then obtain s1 where s1: "resizeHeight n s c = Some s1" by blast
  have "ranked (adjustAlignY s1 c) rk"
    using Cons.prems(1) s1 sameButH_resizeHeight sameButH_adjustAlignY ranked_sameButH by blast
  then show ?case using Cons.IH [of "adjustAlignY s1 c"] Cons.prems s1 by simp
qed

lemma set_height_total:
  "ranked s rk \<Longrightarrow> rk i < n \<Longrightarrow> \<exists>s'. set_height n s i v = Some s'"
proof (induction n arbitrary: s i v)
  case 0
  then show ?case by simp
next
  case (Suc n)
  show ?case
  proof (cases "height (s i) = v")
    case True
    then show ?thesis by simp
  next
    case False
    let ?s2 = "adjustAlignY (s(i := (s i)\<lparr>height := v, originPixelY := v * originY (s i)\<rparr>)) i"
    have "sameButH s (s(i := (s i)\<lparr>height := v, originPixelY := v * originY (s i)\<rparr>))"
      by (rule sameButH_upd) (simp add: eraseH_def)
    then have sb: "sameButH s ?s2"
      using sameButH_adjustAlignY sameButH_trans by blast
    have r2: "ranked ?s2 rk" using Suc.prems(1) sb ranked_sameButH by blast
    show ?thesis
    proof (cases "children (?s2 i)")
      case None
      then show ?thesis using False by (simp add: Let_def)
    next
      case (Some cs)
      have "\<forall>c\<in>set cs. rk c < n"
        using ranked_child [OF r2 Some] Suc.prems(2) by fastforce
      then have "\<exists>s'. reLayoutChildrenOnHeightChanged n ?s2 cs = Some s'"
        using reLayoutH_total_step [of rk n ?s2 cs] Suc.IH r2 by blast
      then show ?thesis using False Some by (simp add: Let_def)
    qed
  qed
qed

lemma resizeHeight_total:
  "ranked s rk \<Longrightarrow> rk i < n \<Longrightarrow> \<exists>s'. resizeHeight n s i = Some s'"
  using resizeHeight_total_step [of rk n i s] set_height_total by blast


subsection \<open>On a tree, a height assignment only reaches the sprite and what lies below it\<close>

lemma adjustAlignY_other: "j \<noteq> i \<Longrightarrow> adjustAlignY s i j = s j"
  by (auto simp: adjustAlignY_def Let_def split: option.splits AlignType.splits)

lemma frameH_layout_all:
  "(\<forall>n s i v s'. set_height n s i v = Some s' \<longrightarrow>
      (ranked s rk \<longrightarrow> (\<forall>j. j \<noteq> i \<and> \<not> rk j < rk i \<longrightarrow> s' j = s j) \<and>
         s' i = (if height (s i) = v then s i
                 else adjustAlignY (s(i := (s i)\<lparr>height := v, originPixelY := v * originY (s i)\<rparr>)) i i))) \<and>
   (\<forall>n s i s'. resizeHeight n s i = Some s' \<longrightarrow>
      (ranked s rk \<longrightarrow> (\<forall>j. j \<noteq> i \<and> \<not> rk j < rk i \<longrightarrow> s' j = s j))) \<and>
   (\<forall>n s cs s'. reLayoutChildrenOnHeightChanged n s cs = Some s' \<longrightarrow>
      (ranked s rk \<longrightarrow> (\<forall>j. (\<forall>c\<in>set cs. j \<noteq> c \<and> \<not> rk j < rk c) \<longrightarrow> s' j = s j)))"
proof (rule layoutH_induct
    [where P = "\<lambda>n s i v s'. ranked s rk \<longrightarrow> (\<forall>j. j \<noteq> i \<and> \<not> rk j < rk i \<longrightarrow> s' j = s j) \<and>
         s' i = (if height (s i) = v then s i
                 else adjustAlignY (s(i := (s i)\<lparr>height := v, originPixelY := v * originY (s i)\<rparr>)) i i)"
       and Q = "\<lambda>n s i s'. ranked s rk \<longrightarrow> (\<forall>j. j \<noteq> i \<and> \<not> rk j < rk i \<longrightarrow> s' j = s j)"
       and L = "\<lambda>n s cs s'. ranked s rk \<longrightarrow>
                  (\<forall>j. (\<forall>c\<in>set cs. j \<noteq> c \<and> \<not> rk j < rk c) \<longrightarrow> s' j = s j)"], goal_cases)
  case (1 n s i v)
  then show ?case by simp
next
  case (2 n s i v s2)
  then show ?case by (simp add: adjustAlignY_other)
next
  case (3 n s i v s2 cs s')
  show ?case
  proof (intro impI)
    assume r: "ranked s rk"
    have "sameButH s (s(i := (s i)\<lparr>height := v, originPixelY := v * originY (s i)\<rparr>))"
      by (rule sameButH_upd) (simp add: eraseH_def)
    then have sb: "sameButH s s2"
      using 3(2) sameButH_adjustAlignY sameButH_trans by blast
    have r2: "ranked s2 rk" using r sb ranked_sameButH by blast
    have below: "\<forall>c\<in>set cs. rk c < rk i"
      using ranked_child [OF r2 3(3)] by blast
    have fr: "\<forall>j. (\<forall>c\<in>set cs. j \<noteq> c \<and> \<not> rk j < rk c) \<longrightarrow> s' j = s2 j"
      using 3(5) r2 by blast
    have "s' i = s2 i" using fr below by fastforce
    moreover have "s' j = s j" if "j \<noteq> i" "\<not> rk j < rk i" for j
    proof -
      have "s' j = s2 j" using fr below that by fastforce
      then show ?thesis using that 3(2) by (simp add: adjustAlignY_other)
    qed
    ultimately show "(\<forall>j. j \<noteq> i \<and> \<not> rk j < rk i \<longrightarrow> s' j = s j) \<and>
         s' i = (if height (s i) = v then s i
                 else adjustAlignY (s(i := (s i)\<lparr>height := v, originPixelY := v * originY (s i)\<rparr>)) i i)"
      using 3(1,2) by simp
  qed
next
  case (4 n s i)
  then show ?case by simp
next
  case (5 n s i p l r s1)
  then show ?case by simp
next
  case (6 n s i p pw s')
  then show ?case by simp
next
  case (7 n s i p)
  then show ?case by simp
next
  case (8 n s)
  then show ?case by simp
next
  case (9 n s c cs s1 s')
  show ?case
  proof (intro impI allI)
    fix j
    assume r: "ranked s rk" and j: "\<forall>c'\<in>set (c # cs). j \<noteq> c' \<and> \<not> rk j < rk c'"
    have r1: "ranked (adjustAlignY s1 c) rk"
      using r 9(1) sameButH_resizeHeight sameButH_adjustAlignY ranked_sameButH by blast
    have "s' j = adjustAlignY s1 c j" using 9(4) r1 j by simp
    also have "\<dots> = s1 j" using j by (simp add: adjustAlignY_other)
    also have "\<dots> = s j" using 9(2) r j by simp
    finally show "s' j = s j" .
  qed
qed

lemma set_height_frame:
  "set_height n s i v = Some s' \<Longrightarrow> ranked s rk \<Longrightarrow> j \<noteq> i \<Longrightarrow> \<not> rk j < rk i \<Longrightarrow> s' j = s j"
  using frameH_layout_all [of rk] by blast

lemma set_height_self:
  "set_height n s i v = Some s' \<Longrightarrow> ranked s rk \<Longrightarrow>
   s' i = (if height (s i) = v then s i
           else adjustAlignY (s(i := (s i)\<lparr>height := v, originPixelY := v * originY (s i)\<rparr>)) i i)"
  using frameH_layout_all [of rk] by blast

lemma resizeHeight_frame:
  "resizeHeight n s i = Some s' \<Longrightarrow> ranked s rk \<Longrightarrow> j \<noteq> i \<Longrightarrow> \<not> rk j < rk i \<Longrightarrow> s' j = s j"
  using frameH_layout_all [of rk] by blast

lemma adjustAlignY_height: "height (adjustAlignY s i j) = height (s j)"
  by (auto simp: adjustAlignY_def Let_def split: option.splits AlignType.splits)

lemma adjustAlignY_originPixelY: "originPixelY (adjustAlignY s i j) = originPixelY (s j)"
  by (auto simp: adjustAlignY_def Let_def split: option.splits AlignType.splits)

lemma set_height_height:
  "set_height n s i v = Some s' \<Longrightarrow> ranked s rk \<Longrightarrow> height (s' i) = v"
  using set_height_self [of n s i v s' rk] by (auto simp: adjustAlignY_height)

subsection \<open>Assignments keep the cached origin offsets and the tree\<close>

lemma originInvY_sameButW: "originInvY s \<Longrightarrow> sameButW s s' \<Longrightarrow> originInvY s'"
  by (simp add: originInvY_def sameButW_fields)

lemma originInvX_sameButH: "originInvX s \<Longrightarrow> sameButH s s' \<Longrightarrow> originInvX s'"
  by (simp add: originInvX_def sameButH_fields)

lemma ranked_upd:
  "ranked s rk \<Longrightarrow> children r = children (s i) \<Longrightarrow> ranked (s(i := r)) rk"
  by (simp add: ranked_def)

lemma ranked_adjustAlignX: "ranked s rk \<Longrightarrow> ranked (adjustAlignX s i) rk"
  using ranked_sameButW sameButW_adjustAlignX by blast

lemma ranked_adjustAlignY: "ranked s rk \<Longrightarrow> ranked (adjustAlignY s i) rk"
  using ranked_sameButH sameButH_adjustAlignY by blast

lemma originInvY_adjustAlignX: "originInvY s \<Longrightarrow> originInvY (adjustAlignX s i)"
  using originInvY_sameButW sameButW_adjustAlignX by blast

lemma originInvX_adjustAlignY: "originInvX s \<Longrightarrow> originInvX (adjustAlignY s i)"
  using originInvX_sameButH sameButH_adjustAlignY by blast

lemma set_originX_keeps:
  assumes "originInvX s" "originInvY s" "ranked s rk"
  shows "originInvX (set_originX s i v) \<and> originInvY (set_originX s i v) \<and>
         ranked (set_originX s i v) rk"
proof (cases "originX (s i) = v")
  case True
  then show ?thesis using assms by (simp add: set_originX_def)
next
  case False
  let ?s1 = "s(i := (s i)\<lparr>originX := v, originPixelX := v * width (s i)\<rparr>)"
  have "originInvX ?s1" using assms(1) by (simp add: originInvX_def)
  moreover have "originInvY ?s1" using assms(2) by (simp add: originInvY_def)
  moreover have "ranked ?s1 rk" using assms(3) by (simp add: ranked_upd)
  ultimately show ?thesis
    using False originInvX_adjustAlignX originInvY_adjustAlignX ranked_adjustAlignX
    by (simp add: set_originX_def)
qed

lemma set_originY_keeps:
  assumes "originInvX s" "originInvY s" "ranked s rk"
  shows "originInvX (set_originY s i v) \<and> originInvY (set_originY s i v) \<and>
         ranked (set_originY s i v) rk"
proof (cases "originY (s i) = v")
  case True
  then show ?thesis using assms by (simp add: set_originY_def)
next
  case False
  let ?s1 = "s(i := (s i)\<lparr>originY := v, originPixelY := v * height (s i)\<rparr>)"
  have "originInvX ?s1" using assms(1) by (simp add: originInvX_def)
  moreover have "originInvY ?s1" using assms(2) by (simp add: originInvY_def)
  moreover have "ranked ?s1 rk" using assms(3) by (simp add: ranked_upd)
  ultimately show ?thesis
    using False originInvX_adjustAlignY originInvY_adjustAlignY ranked_adjustAlignY
    by (simp add: set_originY_def)
qed

lemma set_width_keeps:
  assumes "originInvX s" "originInvY s" "ranked s rk" "rk i < n"
  shows "\<exists>s'. set_width n s i v = Some s' \<and> originInvX s' \<and> originInvY s' \<and> ranked s' rk"
proof -
  obtain s' where s': "set_width n s i v = Some s'"
    using set_width_total assms(3,4) by blast
  then show ?thesis
    using assms originInvX_set_width originInvY_sameButW sameButW_set_width ranked_sameButW
    by blast
qed

lemma set_height_keeps:
  assumes "originInvX s" "originInvY s" "ranked s rk" "rk i < n"
  shows "\<exists>s'. set_height n s i v = Some s' \<and> originInvX s' \<and> originInvY s' \<and> ranked s' rk"
proof -
  obtain s' where s': "set_height n s i v = Some s'"
    using set_height_total assms(3,4) by blast
  then show ?thesis
    using assms originInvY_set_height originInvX_sameButH sameButH_set_height ranked_sameButH
    by blast
qed

lemma resizeWidth_keeps:
  assumes "originInvX s" "originInvY s" "ranked s rk" "rk i < n"
  shows "\<exists>s'. resizeWidth n s i = Some s' \<and> originInvX s' \<and> originInvY s' \<and> ranked s' rk"
proof -
  obtain s' where s': "resizeWidth n s i = Some s'"
    using resizeWidth_total assms(3,4) by blast
  then show ?thesis
    using assms originInvX_resizeWidth originInvY_sameButW sameButW_resizeWidth ranked_sameButW
    by blast
qed

lemma resizeHeight_keeps:
  assumes "originInvX s" "originInvY s" "ranked s rk" "rk i < n"
  shows "\<exists>s'. resizeHeight n s i = Some s' \<and> originInvX s' \<and> originInvY s' \<and> ranked s' rk"
proof -
  obtain s' where s': "resizeHeight n s i = Some s'"
    using resizeHeight_total assms(3,4) by blast
  then show ?thesis
    using assms originInvY_resizeHeight originInvX_sameButH sameButH_resizeHeight ranked_sameButH
    by blast
qed

lemma layout_field_keeps:
  assumes "originInvX s" "originInvY s" "ranked s rk"
    and "width r = width (s i)" "originX r = originX (s i)" "originPixelX r = originPixelX (s i)"
    and "height r = height (s i)" "originY r = originY (s i)" "originPixelY r = originPixelY (s i)"
    and "children r = children (s i)"
  shows "originInvX (s(i := r)) \<and> originInvY (s(i := r)) \<and> ranked (s(i := r)) rk"
  using assms by (simp add: originInvX_def originInvY_def ranked_def)

lemma assign_keeps:
  assumes "originInvX s" "originInvY s" "ranked s rk" "rk i < n"
  shows "\<exists>s'. assign n s i a = Some s' \<and> originInvX s' \<and> originInvY s' \<and> ranked s' rk"
proof (cases a)
  case (Set_width v)
  then show ?thesis using set_width_keeps [OF assms] by simp
next
  case (Set_height v)
  then show ?thesis using set_height_keeps [OF assms] by simp
next
  case (Set_originX v)
  then show ?thesis using set_originX_keeps [OF assms(1-3)] by simp
next
  case (Set_originY v)
  then show ?thesis using set_originY_keeps [OF assms(1-3)] by simp
next
  case (Set_top v)
  have "originInvX (s(i := (s i)\<lparr>autoResize := False, top := Some v\<rparr>)) \<and>
        originInvY (s(i := (s i)\<lparr>autoResize := False, top := Some v\<rparr>)) \<and>
        ranked (s(i := (s i)\<lparr>autoResize := False, top := Some v\<rparr>)) rk"
    by (rule layout_field_keeps [OF assms(1-3)]) simp_all
  then show ?thesis unfolding Set_top assign.simps set_top_def using resizeHeight_keeps assms(4) by blast
next
  case (Set_right v)
  have "originInvX (s(i := (s i)\<lparr>autoResize := False, right := Some v\<rparr>)) \<and>
        originInvY (s(i := (s i)\<lparr>autoResize := False, right := Some v\<rparr>)) \<and>
        ranked (s(i := (s i)\<lparr>autoResize := False, right := Some v\<rparr>)) rk"
    by (rule layout_field_keeps [OF assms(1-3)]) simp_all
  then show ?thesis unfolding Set_right assign.simps set_right_def using resizeWidth_keeps assms(4) by blast
next
  case (Set_bottom v)
  have "originInvX (s(i := (s i)\<lparr>autoResize := False, bottom := Some v\<rparr>)) \<and>
        originInvY (s(i := (s i)\<lparr>autoResize := False, bottom := Some v\<rparr>)) \<and>
        ranked (s(i := (s i)\<lparr>autoResize := False, bottom := Some v\<rparr>)) rk"
    by (rule layout_field_keeps [OF assms(1-3)]) simp_all
  then show ?thesis unfolding Set_bottom assign.simps set_bottom_def using resizeHeight_keeps assms(4) by blast
next
  case (Set_left v)
  have "originInvX (s(i := (s i)\<lparr>autoResize := False, left := Some v\<rparr>)) \<and>
        originInvY (s(i := (s i)\<lparr>autoResize := False, left := Some v\<rparr>)) \<and>
        ranked (s(i := (s i)\<lparr>autoResize := False, left := Some v\<rparr>)) rk"
    by (rule layout_field_keeps [OF assms(1-3)]) simp_all
  then show ?thesis unfolding Set_left assign.simps set_left_def using resizeWidth_keeps assms(4) by blast
next
  case (Set_percentWidth v)
  have "originInvX (s(i := (s i)\<lparr>autoResize := False, percentWidth := Some v\<rparr>)) \<and>
        originInvY (s(i := (s i)\<lparr>autoResize := False, percentWidth := Some v\<rparr>)) \<and>
        ranked (s(i := (s i)\<lparr>autoResize := False, percentWidth := Some v\<rparr>)) rk"
    by (rule layout_field_keeps [OF assms(1-3)]) simp_all
  then show ?thesis unfolding Set_percentWidth assign.simps set_percentWidth_def using resizeWidth_keeps assms(4) by blast
next
  case (Set_percentHeight v)
  have "originInvX (s(i := (s i)\<lparr>autoResize := False, percentHeight := Some v\<rparr>)) \<and>
        originInvY (s(i := (s i)\<lparr>autoResize := False, percentHeight := Some v\<rparr>)) \<and>
        ranked (s(i := (s i)\<lparr>autoResize := False, percentHeight := Some v\<rparr>)) rk"
    by (rule layout_field_keeps [OF assms(1-3)]) simp_all
  then show ?thesis unfolding Set_percentHeight assign.simps set_percentHeight_def using resizeHeight_keeps assms(4) by blast
next
  case (Set_grid g)
  have "originInvX (s(i := (s i)\<lparr>grid := Some g, autoResize := False\<rparr>)) \<and>
        originInvY (s(i := (s i)\<lparr>grid := Some g, autoResize := False\<rparr>)) \<and>
        ranked (s(i := (s i)\<lparr>grid := Some g, autoResize := False\<rparr>)) rk"
    by (rule layout_field_keeps [OF assms(1-3)]) simp_all
  then show ?thesis using Set_grid by (simp add: set_grid_def)
qed

lemma assigns_keeps:
  "originInvX s \<Longrightarrow> originInvY s \<Longrightarrow> ranked s rk \<Longrightarrow> \<forall>(i, a)\<in>set ops. rk i < n \<Longrightarrow>
   \<exists>s'. assigns n s ops = Some s' \<and> originInvX s' \<and> originInvY s' \<and> ranked s' rk"
proof (induction ops arbitrary: s)
  case Nil
  then show ?case by simp
next
  case (Cons op ops)
  obtain i a where op: "op = (i, a)" by (cases op)
  have "rk i < n" using Cons.prems(4) op by simp
  then obtain s1 where s1: "assign n s i a = Some s1" "originInvX s1" "originInvY s1" "ranked s1 rk"
    using assign_keeps Cons.prems(1-3) by blast
  have "\<forall>(i, a)\<in>set ops. rk i < n" using Cons.prems(4) by simp
  then show ?case using Cons.IH [OF s1(2,3,4)] s1(1) op by simp
qed

lemma originInv_new_Sprite: "originInvX (\<lambda>_. new_Sprite) \<and> originInvY (\<lambda>_. new_Sprite)"
  by (simp add: originInvX_def originInvY_def new_Sprite_def)

text \<open>
  C3. For every sprite of the heap, after any finite sequence of assignments to width,
  height, originX and originY through the setters, originPixelX is originX * width and
  originPixelY is originY * height. The sequence starts from a heap on which the two
  equations hold (as they do on newly constructed sprites) and whose parent/children
  links form a forest; on such a heap every setter returns. Numbers are real numbers.
\<close>

theorem origin_pixel_invariant:
  assumes "originInvX s" and "originInvY s" and "ranked s rk"
    and "\<forall>(i, a)\<in>set ops. rk i < n \<and> is_size_or_origin a"
  shows "\<exists>s'. assigns n s ops = Some s' \<and>
           (\<forall>j. originPixelX (s' j) = originX (s' j) * width (s' j) \<and>
                originPixelY (s' j) = originY (s' j) * height (s' j))"
proof -
  have "\<forall>(i, a)\<in>set ops. rk i < n" using assms(4) by auto
  then obtain s' where "assigns n s ops = Some s'" "originInvX s'" "originInvY s'"
    using assigns_keeps [OF assms(1-3)] by blast
  then show ?thesis by (auto simp: originInvX_def originInvY_def)
qed

lemma ranked_scene: "ranked scene scene_rank"
  by (simp add: ranked_def scene_def scene_rank_def new_Sprite_def)

lemma originInv_scene: "originInvX scene \<and> originInvY scene"
  by (simp add: originInvX_def originInvY_def scene_def new_Sprite_def)

theorem origin_pixel_invariant_witness:
  "originInvX scene \<and> originInvY scene \<and> ranked scene scene_rank \<and>
   (\<exists>s'. assigns 2 scene [(0, Set_width 200), (1, Set_originX 0), (0, Set_height 50),
                           (1, Set_originY 1)] = Some s' \<and>
      (\<forall>j. originPixelX (s' j) = originX (s' j) * width (s' j) \<and>
           originPixelY (s' j) = originY (s' j) * height (s' j)))"
  using origin_pixel_invariant [of scene scene_rank
      "[(0, Set_width 200), (1, Set_originX 0), (0, Set_height 50), (1, Set_originY 1)]" 2]
    ranked_scene originInv_scene
  by (simp add: scene_rank_def)

section \<open>Properties of the edge pins and of the texture setter\<close>

subsection \<open>A pinned child keeps its resolved width through a re-layout\<close>

lemma pinnedW_layout_all:
  "(\<forall>n s i v s'. set_width n s i v = Some s' \<longrightarrow>
      (ranked s rk \<and> parent (s c) = Some p \<and> left (s c) = Some l \<and> right (s c) = Some r \<and>
       width (s p) = W \<and> rk i < rk p \<and> i \<noteq> c \<and> width (s c) = W - l - r
       \<longrightarrow> width (s' c) = W - l - r)) \<and>
   (\<forall>n s i s'. resizeWidth n s i = Some s' \<longrightarrow>
      (ranked s rk \<and> parent (s c) = Some p \<and> left (s c) = Some l \<and> right (s c) = Some r \<and>
       width (s p) = W \<and> rk i < rk p \<and> (i = c \<or> width (s c) = W - l - r)
       \<longrightarrow> width (s' c) = W - l - r)) \<and>
   (\<forall>n s cs s'. reLayoutChildrenOnWidthChanged n s cs = Some s' \<longrightarrow>
      (ranked s rk \<and> parent (s c) = Some p \<and> left (s c) = Some l \<and> right (s c) = Some r \<and>
       width (s p) = W \<and> (\<forall>e\<in>set cs. rk e < rk p) \<and> (c \<in> set cs \<or> width (s c) = W - l - r)
       \<longrightarrow> width (s' c) = W - l - r))"
proof (rule layoutW_induct
    [where P = "\<lambda>n s i v s'.
        ranked s rk \<and> parent (s c) = Some p \<and> left (s c) = Some l \<and> right (s c) = Some r \<and>
        width (s p) = W \<and> rk i < rk p \<and> i \<noteq> c \<and> width (s c) = W - l - r
        \<longrightarrow> width (s' c) = W - l - r"
      and Q = "\<lambda>n s i s'.
        ranked s rk \<and> parent (s c) = Some p \<and> left (s c) = Some l \<and> right (s c) = Some r \<and>
        width (s p) = W \<and> rk i < rk p \<and> (i = c \<or> width (s c) = W - l - r)
        \<longrightarrow> width (s' c) = W - l - r"
      and L = "\<lambda>n s cs s'.
        ranked s rk \<and> parent (s c) = Some p \<and> left (s c) = Some l \<and> right (s c) = Some r \<and>
        width (s p) = W \<and> (\<forall>e\<in>set cs. rk e < rk p) \<and> (c \<in> set cs \<or> width (s c) = W - l - r)
        \<longrightarrow> width (s' c) = W - l - r"], goal_cases)
  case (1 n s i v)
  then show ?case by simp
next
  case (2 n s i v s2)
  then show ?case by (simp add: adjustAlignX_width)
next
  case (3 n s i v s2 cs s')
  show ?case
  proof (intro impI)
    assume h: "ranked s rk \<and> parent (s c) = Some p \<and> left (s c) = Some l \<and>
      right (s c) = Some r \<and> width (s p) = W \<and> rk i < rk p \<and> i \<noteq> c \<and> width (s c) = W - l - r"
    have "sameButW s (s(i := (s i)\<lparr>width := v, originPixelX := v * originX (s i)\<rparr>))"
      by (rule sameButW_upd) (simp add: eraseW_def)
    then have sb: "sameButW s s2"
      using 3(2) sameButW_adjustAlignX sameButW_trans by blast
    have r2: "ranked s2 rk" using h sb ranked_sameButW by blast
    have ip: "i \<noteq> p" using h by auto
    have f: "parent (s2 c) = Some p" "left (s2 c) = Some l" "right (s2 c) = Some r"
      using h sameButW_fields [OF sb] by simp_all
    have wp: "width (s2 p) = W" using h ip 3(2) by (simp add: adjustAlignX_width)
    have wc: "width (s2 c) = W - l - r" using h 3(2) by (simp add: adjustAlignX_width)
    have below: "\<forall>e\<in>set cs. rk e < rk p"
      using ranked_child [OF r2 3(3)] h by fastforce
    show "width (s' c) = W - l - r"
      using 3(5) r2 f wp wc below by blast
  qed
next
  case (4 n s i)
  then show ?case by auto
next
  case (5 n s i q a b s1)
  show ?case
  proof (intro impI)
    assume h: "ranked s rk \<and> parent (s c) = Some p \<and> left (s c) = Some l \<and>
      right (s c) = Some r \<and> width (s p) = W \<and> rk i < rk p \<and> (i = c \<or> width (s c) = W - l - r)"
    have "width (s1 c) = W - l - r"
    proof (cases "i = c")
      case True
      then have "width (s1 c) = width (s q) - a - b"
        using set_width_width [OF 5(4)] h by blast
      then show ?thesis using True 5(1,2,3) h by simp
    next
      case False
      then show ?thesis using 5(5) h by blast
    qed
    then show "width ((s1(i := (s1 i)\<lparr>x := a + originPixelX (s1 i)\<rparr>)) c) = W - l - r"
      by auto
  qed
next
  case (6 n s i q pw s')
  then show ?case by auto
next
  case (7 n s i q)
  then show ?case by auto
next
  case (8 n s)
  then show ?case by simp
next
  case (9 n s e cs s1 s')
  show ?case
  proof (intro impI)
    assume h: "ranked s rk \<and> parent (s c) = Some p \<and> left (s c) = Some l \<and>
      right (s c) = Some r \<and> width (s p) = W \<and> (\<forall>e'\<in>set (e # cs). rk e' < rk p) \<and>
      (c \<in> set (e # cs) \<or> width (s c) = W - l - r)"
    have sb: "sameButW s (adjustAlignX s1 e)"
      using 9(1) sameButW_resizeWidth sameButW_adjustAlignX sameButW_trans by blast
    have r1: "ranked (adjustAlignX s1 e) rk" using h sb ranked_sameButW by blast
    have f: "parent (adjustAlignX s1 e c) = Some p" "left (adjustAlignX s1 e c) = Some l"
      "right (adjustAlignX s1 e c) = Some r"
      using h sameButW_fields [OF sb] by simp_all
    have rs: "ranked s rk" using h by simp
    have ep: "p \<noteq> e" "\<not> rk p < rk e" using h by auto
    have "s1 p = s p" by (rule resizeWidth_frame [OF 9(1) rs ep])
    then have wp: "width (adjustAlignX s1 e p) = W" using h by (simp add: adjustAlignX_width)
    have below: "\<forall>e'\<in>set cs. rk e' < rk p" using h by simp
    have "c \<in> set cs \<or> width (adjustAlignX s1 e c) = W - l - r"
    proof (cases "c \<in> set cs")
      case True
      then show ?thesis by simp
    next
      case False
      then have "e = c \<or> width (s c) = W - l - r" using h by auto
      then have "width (s1 c) = W - l - r" using 9(2) h by simp
      then show ?thesis by (simp add: adjustAlignX_width)
    qed
    then show "width (s' c) = W - l - r"
      using 9(4) r1 f wp below by blast
  qed
qed

lemma pinnedW_reLayout:
  "reLayoutChildrenOnWidthChanged n s cs = Some s' \<Longrightarrow> ranked s rk \<Longrightarrow>
   parent (s c) = Some p \<Longrightarrow> left (s c) = Some l \<Longrightarrow> right (s c) = Some r \<Longrightarrow>
   \<forall>e\<in>set cs. rk e < rk p \<Longrightarrow> c \<in> set cs \<Longrightarrow> width (s' c) = width (s p) - l - r"
  using pinnedW_layout_all [of rk c p l r "width (s p)"] by blast

lemma resizeWidth_pinned:
  assumes "ranked s rk" "parent (s c) = Some p" "left (s c) = Some l" "right (s c) = Some r"
    and "rk c < rk p" "rk c < n"
  shows "\<exists>s'. resizeWidth n s c = Some s' \<and> width (s' c) = width (s p) - l - r \<and>
           x (s' c) = l + originPixelX (s' c) \<and> s' p = s p"
proof -
  obtain s1 where s1: "set_width n s c (width (s p) - l - r) = Some s1"
    using set_width_total assms(1,6) by blast
  let ?s' = "s1(c := (s1 c)\<lparr>x := l + originPixelX (s1 c)\<rparr>)"
  have r: "resizeWidth n s c = Some ?s'" using s1 assms(2-4) by (simp add: resizeWidth.simps)
  have w: "width (s1 c) = width (s p) - l - r" using set_width_width [OF s1 assms(1)] .
  have pc: "p \<noteq> c" using assms(5) by auto
  have "\<not> rk p < rk c" using assms(5) by simp
  then have "s1 p = s p" using set_width_frame [OF s1 assms(1) pc] by blast
  then show ?thesis using r w pc by auto
qed

subsection \<open>A pinned child keeps its resolved height through a re-layout\<close>

lemma pinnedH_layout_all:
  "(\<forall>n s i v s'. set_height n s i v = Some s' \<longrightarrow>
      (ranked s rk \<and> parent (s c) = Some p \<and> top (s c) = Some l \<and> bottom (s c) = Some r \<and>
       height (s p) = W \<and> rk i < rk p \<and> i \<noteq> c \<and> height (s c) = W - l - r
       \<longrightarrow> height (s' c) = W - l - r)) \<and>
   (\<forall>n s i s'. resizeHeight n s i = Some s' \<longrightarrow>
      (ranked s rk \<and> parent (s c) = Some p \<and> top (s c) = Some l \<and> bottom (s c) = Some r \<and>
       height (s p) = W \<and> rk i < rk p \<and> (i = c \<or> height (s c) = W - l - r)
       \<longrightarrow> height (s' c) = W - l - r)) \<and>
   (\<forall>n s cs s'. reLayoutChildrenOnHeightChanged n s cs = Some s' \<longrightarrow>
      (ranked s rk \<and> parent (s c) = Some p \<and> top (s c) = Some l \<and> bottom (s c) = Some r \<and>
       height (s p) = W \<and> (\<forall>e\<in>set cs. rk e < rk p) \<and> (c \<in> set cs \<or> height (s c) = W - l - r)
       \<longrightarrow> height (s' c) = W - l - r))"
proof (rule layoutH_induct
    [where P = "\<lambda>n s i v s'.
        ranked s rk \<and> parent (s c) = Some p \<and> top (s c) = Some l \<and> bottom (s c) = Some r \<and>
        height (s p) = W \<and> rk i < rk p \<and> i \<noteq> c \<and> height (s c) = W - l - r
        \<longrightarrow> height (s' c) = W - l - r"
      and Q = "\<lambda>n s i s'.
        ranked s rk \<and> parent (s c) = Some p \<and> top (s c) = Some l \<and> bottom (s c) = Some r \<and>
        height (s p) = W \<and> rk i < rk p \<and> (i = c \<or> height (s c) = W - l - r)
        \<longrightarrow> height (s' c) = W - l - r"
      and L = "\<lambda>n s cs s'.
        ranked s rk \<and> parent (s c) = Some p \<and> top (s c) = Some l \<and> bottom (s c) = Some r \<and>
        height (s p) = W \<and> (\<forall>e\<in>set cs. rk e < rk p) \<and> (c \<in> set cs \<or> height (s c) = W - l - r)
        \<longrightarrow> height (s' c) = W - l - r"], goal_cases)
  case (1 n s i v)
  then show ?case by simp
next
  case (2 n s i v s2)
  then show ?case by (simp add: adjustAlignY_height)
next
  case (3 n s i v s2 cs s')
  show ?case
  proof (intro impI)
    assume h: "ranked s rk \<and> parent (s c) = Some p \<and> top (s c) = Some l \<and>
      bottom (s c) = Some r \<and> height (s p) = W \<and> rk i < rk p \<and> i \<noteq> c \<and> height (s c) = W - l - r"
    have "sameButH s (s(i := (s i)\<lparr>height := v, originPixelY := v * originY (s i)\<rparr>))"
      by (rule sameButH_upd) (simp add: eraseH_def)
    then have sb: "sameButH s s2"
      using 3(2) sameButH_adjustAlignY sameButH_trans by blast
    have r2: "ranked s2 rk" using h sb ranked_sameButH by blast
    have ip: "i \<noteq> p" using h by auto
    have f: "parent (s2 c) = Some p" "top (s2 c) = Some l" "bottom (s2 c) = Some r"
      using h sameButH_fields [OF sb] by simp_all
    have wp: "height (s2 p) = W" using h ip 3(2) by (simp add: adjustAlignY_height)
    have wc: "height (s2 c) = W - l - r" using h 3(2) by (simp add: adjustAlignY_height)
    have below: "\<forall>e\<in>set cs. rk e < rk p"
      using ranked_child [OF r2 3(3)] h by fastforce
    show "height (s' c) = W - l - r"
      using 3(5) r2 f wp wc below by blast
  qed
next
  case (4 n s i)
  then show ?case by auto
next
  case (5 n s i q a b s1)
  show ?case
  proof (intro impI)
    assume h: "ranked s rk \<and> parent (s c) = Some p \<and> top (s c) = Some l \<and>
      bottom (s c) = Some r \<and> height (s p) = W \<and> rk i < rk p \<and> (i = c \<or> height (s c) = W - l - r)"
    have "height (s1 c) = W - l - r"
    proof (cases "i = c")
      case True
      then have "height (s1 c) = height (s q) - a - b"
        using set_height_height [OF 5(4)] h by blast
      then show ?thesis using True 5(1,2,3) h by simp
    next
      case False
      then show ?thesis using 5(5) h by blast
    qed
    then show "height ((s1(i := (s1 i)\<lparr>y := a + originPixelY (s1 i)\<rparr>)) c) = W - l - r"
      by auto
  qed
next
  case (6 n s i q pw s')
  then show ?case by auto
next
  case (7 n s i q)
  then show ?case by auto
next
  case (8 n s)
  then show ?case by simp
next
  case (9 n s e cs s1 s')
  show ?case
  proof (intro impI)
    assume h: "ranked s rk \<and> parent (s c) = Some p \<and> top (s c) = Some l \<and>
      bottom (s c) = Some r \<and> height (s p) = W \<and> (\<forall>e'\<in>set (e # cs). rk e' < rk p) \<and>
      (c \<in> set (e # cs) \<or> height (s c) = W - l - r)"
    have sb: "sameButH s (adjustAlignY s1 e)"
      using 9(1) sameButH_resizeHeight sameButH_adjustAlignY sameButH_trans by blast
    have r1: "ranked (adjustAlignY s1 e) rk" using h sb ranked_sameButH by blast
    have f: "parent (adjustAlignY s1 e c) = Some p" "top (adjustAlignY s1 e c) = Some l"
      "bottom (adjustAlignY s1 e c) = Some r"
      using h sameButH_fields [OF sb] by simp_all
    have rs: "ranked s rk" using h by simp
    have ep: "p \<noteq> e" "\<not> rk p < rk e" using h by auto
    have "s1 p = s p" by (rule resizeHeight_frame [OF 9(1) rs ep])
    then have wp: "height (adjustAlignY s1 e p) = W" using h by (simp add: adjustAlignY_height)
    have below: "\<forall>e'\<in>set cs. rk e' < rk p" using h by simp
    have "c \<in> set cs \<or> height (adjustAlignY s1 e c) = W - l - r"
    proof (cases "c \<in> set cs")
      case True
      then show ?thesis by simp
    next
      case False
      then have "e = c \<or> height (s c) = W - l - r" using h by auto
      then have "height (s1 c) = W - l - r" using 9(2) h by simp
      then show ?thesis by (simp add: adjustAlignY_height)
    qed
    then show "height (s' c) = W - l - r"
      using 9(4) r1 f wp below by blast
  qed
qed

lemma pinnedH_reLayout:
  "reLayoutChildrenOnHeightChanged n s cs = Some s' \<Longrightarrow> ranked s rk \<Longrightarrow>
   parent (s c) = Some p \<Longrightarrow> top (s c) = Some l \<Longrightarrow> bottom (s c) = Some r \<Longrightarrow>
   \<forall>e\<in>set cs. rk e < rk p \<Longrightarrow> c \<in> set cs \<Longrightarrow> height (s' c) = height (s p) - l - r"
  using pinnedH_layout_all [of rk c p l r "height (s p)"] by blast

lemma resizeHeight_pinned:
  assumes "ranked s rk" "parent (s c) = Some p" "top (s c) = Some l" "bottom (s c) = Some r"
    and "rk c < rk p" "rk c < n"
  shows "\<exists>s'. resizeHeight n s c = Some s' \<and> height (s' c) = height (s p) - l - r \<and>
           y (s' c) = l + originPixelY (s' c) \<and> s' p = s p"
proof -
  obtain s1 where s1: "set_height n s c (height (s p) - l - r) = Some s1"
    using set_height_total assms(1,6) by blast
  let ?s' = "s1(c := (s1 c)\<lparr>y := l + originPixelY (s1 c)\<rparr>)"
  have r: "resizeHeight n s c = Some ?s'" using s1 assms(2-4) by (simp add: resizeHeight.simps)
  have w: "height (s1 c) = height (s p) - l - r" using set_height_height [OF s1 assms(1)] .
  have pc: "p \<noteq> c" using assms(5) by auto
  have "\<not> rk p < rk c" using assms(5) by simp
  then have "s1 p = s p" using set_height_frame [OF s1 assms(1) pc] by blast
  then show ?thesis using r w pc by auto
qed

lemma set_width_children_pinned:
  assumes "ranked s rk" "children (s p) = Some cs" "c \<in> set cs" "parent (s c) = Some p"
    and "left (s c) = Some l" "right (s c) = Some r" "rk p < n" "w \<noteq> width (s p)"
  shows "\<exists>s'. set_width n s p w = Some s' \<and> width (s' p) = w \<and> width (s' c) = w - l - r"
proof -
  obtain s' where s': "set_width n s p w = Some s'"
    using set_width_total assms(1,7) by blast
  obtain m where n: "n = Suc m" using assms(7) by (cases n) auto
  let ?s2 = "adjustAlignX (s(p := (s p)\<lparr>width := w, originPixelX := w * originX (s p)\<rparr>)) p"
  have "sameButW s (s(p := (s p)\<lparr>width := w, originPixelX := w * originX (s p)\<rparr>))"
    by (rule sameButW_upd) (simp add: eraseW_def)
  then have sb: "sameButW s ?s2"
    using sameButW_adjustAlignX sameButW_trans by blast
  have r2: "ranked ?s2 rk" using assms(1) sb ranked_sameButW by blast
  have ch: "children (?s2 p) = Some cs" using sameButW_fields(1) [OF sb] assms(2) by simp
  have loop: "reLayoutChildrenOnWidthChanged m ?s2 cs = Some s'"
    using s' n assms(8) ch by (simp add: Let_def)
  have cp: "rk c < rk p" using ranked_child [OF assms(1,2,3)] .
  have f: "parent (?s2 c) = Some p" "left (?s2 c) = Some l" "right (?s2 c) = Some r"
    using assms(4,5,6) sameButW_fields [OF sb] by simp_all
  have below: "\<forall>e\<in>set cs. rk e < rk p" using ranked_child [OF assms(1,2)] by blast
  have "width (s' c) = width (?s2 p) - l - r"
    by (rule pinnedW_reLayout [OF loop r2 f below assms(3)])
  moreover have "width (?s2 p) = w" by (simp add: adjustAlignX_width)
  moreover have "width (s' p) = w" using set_width_width [OF s' assms(1)] .
  ultimately show ?thesis using s' by simp
qed

text \<open>
  C8. For a child with both its left and its right edge pin set under a parent (the child
  is in the children of the parent, on a forest), resolving the width of the child gives
  it the width of the parent minus the two pins and the position \<open>x = left + originPixelX\<close>;
  and when the width of the parent changes, the re-layout of the children that the width
  setter of the parent runs gives the child the new width of the parent minus the two
  pins (that re-layout then re-applies the alignment of the child, which sets x again when
  the child has an alignX). Both calls return.
\<close>

theorem edge_pins_resolve_width:
  assumes "ranked s rk" and "children (s p) = Some cs" and "c \<in> set cs"
    and "parent (s c) = Some p" and "left (s c) = Some l" and "right (s c) = Some r"
    and "rk p < n"
  shows "(\<exists>s'. resizeWidth n s c = Some s' \<and> width (s' c) = width (s' p) - l - r \<and>
            x (s' c) = l + originPixelX (s' c) \<and> width (s' p) = width (s p)) \<and>
         (w \<noteq> width (s p) \<longrightarrow>
            (\<exists>s'. set_width n s p w = Some s' \<and> width (s' p) = w \<and>
               width (s' c) = w - l - r))"
proof -
  have cp: "rk c < rk p" using ranked_child [OF assms(1,2,3)] .
  then have cn: "rk c < n" using assms(7) by simp
  obtain s' where "resizeWidth n s c = Some s'" "width (s' c) = width (s p) - l - r"
    "x (s' c) = l + originPixelX (s' c)" "s' p = s p"
    using resizeWidth_pinned [OF assms(1,4,5,6) cp cn] by blast
  then have a: "\<exists>s'. resizeWidth n s c = Some s' \<and> width (s' c) = width (s' p) - l - r \<and>
            x (s' c) = l + originPixelX (s' c) \<and> width (s' p) = width (s p)"
    by auto
  show ?thesis using a set_width_children_pinned [OF assms] by blast
qed

lemma scene_facts:
  "children (scene 0) = Some [1]" "parent (scene (Suc 0)) = Some 0"
  "left (scene (Suc 0)) = Some 10" "right (scene (Suc 0)) = Some 20" "width (scene 0) = 0"
  by (simp_all add: scene_def new_Sprite_def)

theorem edge_pins_resolve_width_witness:
  "\<exists>s1 s2. set_width 2 scene 0 200 = Some s1 \<and> width (s1 1) = 170 \<and>
      set_width 2 s1 0 300 = Some s2 \<and> width (s2 1) = 270 \<and>
      (\<exists>s3. resizeWidth 2 s2 1 = Some s3 \<and> width (s3 1) = 270 \<and>
         x (s3 1) = 10 + originPixelX (s3 1))"
proof -
  obtain s1 where s1: "set_width 2 scene 0 200 = Some s1" "width (s1 0) = 200"
    "width (s1 1) = 200 - 10 - 20"
    using edge_pins_resolve_width [of scene scene_rank 0 "[1]" 1 10 20 2 200]
      ranked_scene scene_facts by (auto simp: scene_rank_def)
  have sb: "sameButW scene s1" using sameButW_set_width [OF s1(1)] .
  have r1: "ranked s1 scene_rank" using ranked_scene sb ranked_sameButW by blast
  have f1: "children (s1 0) = Some [1]" "parent (s1 1) = Some 0" "left (s1 1) = Some 10"
    "right (s1 1) = Some 20"
    using sameButW_fields [OF sb] scene_facts by simp_all
  obtain s2 where s2: "set_width 2 s1 0 300 = Some s2" "width (s2 0) = 300"
    "width (s2 1) = 300 - 10 - 20"
    using edge_pins_resolve_width [of s1 scene_rank 0 "[1]" 1 10 20 2 300] r1 f1 s1(2)
    by (auto simp: scene_rank_def)
  have sb2: "sameButW s1 s2" using sameButW_set_width [OF s2(1)] .
  have r2: "ranked s2 scene_rank" using r1 sb2 ranked_sameButW by blast
  have f2: "children (s2 0) = Some [1]" "parent (s2 1) = Some 0" "left (s2 1) = Some 10"
    "right (s2 1) = Some 20"
    using sameButW_fields [OF sb2] f1 by simp_all
  obtain s3 where s3: "resizeWidth 2 s2 1 = Some s3" "width (s3 1) = width (s3 0) - 10 - 20"
    "x (s3 1) = 10 + originPixelX (s3 1)" "width (s3 0) = width (s2 0)"
    using edge_pins_resolve_width [of s2 scene_rank 0 "[1]" 1 10 20 2 300] r2 f2
    by (auto simp: scene_rank_def)
  show ?thesis using s1 s2 s3 by auto
qed

subsection \<open>The texture setter\<close>

lemma set_size_zero:
  assumes "ranked s rk" "rk i < n"
  shows "\<exists>s1 s'. set_width n s i w = Some s1 \<and> set_height n s1 i h = Some s' \<and>
           width (s' i) = w \<and> height (s' i) = h \<and> texture (s' i) = texture (s i) \<and>
           ranked s' rk"
proof -
  obtain s1 where s1: "set_width n s i w = Some s1" using set_width_total assms by blast
  have sb1: "sameButW s s1" using sameButW_set_width [OF s1] .
  have r1: "ranked s1 rk" using assms(1) sb1 ranked_sameButW by blast
  obtain s' where s': "set_height n s1 i h = Some s'" using set_height_total r1 assms(2) by blast
  have sb2: "sameButH s1 s'" using sameButH_set_height [OF s'] .
  have "width (s' i) = w"
    using set_width_width [OF s1 assms(1)] sameButH_fields [OF sb2] by simp
  moreover have "height (s' i) = h" using set_height_height [OF s' r1] .
  moreover have "texture (s' i) = texture (s i)"
    using sameButW_fields [OF sb1] sameButH_fields [OF sb2] by simp
  moreover have "ranked s' rk" using r1 sb2 ranked_sameButH by blast
  ultimately show ?thesis using s1 s' by blast
qed

text \<open>
  C10. On a sprite (of a forest) whose current texture is an object, assigning \<open>null\<close> or
  \<open>undefined\<close> to the texture property with autoResize still true runs the width setter
  and then the height setter with 0, after which the width and the height are 0; with
  autoResize false the assignment only replaces the texture, so the width and the height
  are unchanged.
\<close>

theorem texture_null_resets_size:
  assumes "ranked s rk" and "rk i < n" and "texture (s i) = Ref t"
    and "v = Null \<or> v = Undefined"
  shows "(autoResize (s i) \<longrightarrow>
            (\<exists>s1 s'. set_width n (s(i := (s i)\<lparr>texture := v\<rparr>)) i 0 = Some s1 \<and>
               set_height n s1 i 0 = Some s' \<and> set_texture n s i v = Some s' \<and>
               width (s' i) = 0 \<and> height (s' i) = 0 \<and> texture (s' i) = v)) \<and>
         (\<not> autoResize (s i) \<longrightarrow>
            set_texture n s i v = Some (s(i := (s i)\<lparr>texture := v\<rparr>)) \<and>
            width ((s(i := (s i)\<lparr>texture := v\<rparr>)) i) = width (s i) \<and>
            height ((s(i := (s i)\<lparr>texture := v\<rparr>)) i) = height (s i))"
proof (intro conjI impI)
  assume a: "autoResize (s i)"
  let ?s0 = "s(i := (s i)\<lparr>texture := v\<rparr>)"
  have r0: "ranked ?s0 rk" using assms(1) by (simp add: ranked_upd)
  obtain s1 s' where s: "set_width n ?s0 i 0 = Some s1" "set_height n s1 i 0 = Some s'"
    "width (s' i) = 0" "height (s' i) = 0" "texture (s' i) = texture (?s0 i)"
    using set_size_zero [OF r0 assms(2), of 0 0] by blast
  have "set_texture n s i v = Some s'"
    using assms(3,4) a s(1,2) by (auto simp: set_texture_def Let_def)
  then show "\<exists>s1 s'. set_width n ?s0 i 0 = Some s1 \<and>
               set_height n s1 i 0 = Some s' \<and> set_texture n s i v = Some s' \<and>
               width (s' i) = 0 \<and> height (s' i) = 0 \<and> texture (s' i) = v"
    using s by auto
next
  assume "\<not> autoResize (s i)"
  then show "set_texture n s i v = Some (s(i := (s i)\<lparr>texture := v\<rparr>))"
    using assms(3,4) by (auto simp: set_texture_def Let_def)
qed simp_all

lemma ranked_textured: "ranked textured scene_rank"
  by (simp add: ranked_def textured_def scene_def new_Sprite_def scene_rank_def)

theorem texture_null_resets_size_witness:
  "(\<exists>s'. set_texture 2 textured 0 Null = Some s' \<and> width (s' 0) = 0 \<and> height (s' 0) = 0) \<and>
   set_texture 2 (set_grid textured 0 [4, 4, 4, 4]) 0 Null =
     Some ((set_grid textured 0 [4, 4, 4, 4])
             (0 := (set_grid textured 0 [4, 4, 4, 4] 0)\<lparr>texture := Null\<rparr>)) \<and>
   width (set_grid textured 0 [4, 4, 4, 4] 0) = 64"
proof -
  have a: "\<exists>s'. set_texture 2 textured 0 Null = Some s' \<and> width (s' 0) = 0 \<and> height (s' 0) = 0"
    using texture_null_resets_size [of textured scene_rank 0 2 "Texture 7 True 64 32" Null]
      ranked_textured
    by (auto simp: scene_rank_def textured_def scene_def new_Sprite_def)
  have r: "ranked (set_grid textured 0 [4, 4, 4, 4]) scene_rank"
    by (simp add: ranked_def set_grid_def textured_def scene_def new_Sprite_def scene_rank_def)
  have b: "set_texture 2 (set_grid textured 0 [4, 4, 4, 4]) 0 Null =
     Some ((set_grid textured 0 [4, 4, 4, 4])
             (0 := (set_grid textured 0 [4, 4, 4, 4] 0)\<lparr>texture := Null\<rparr>))"
    using texture_null_resets_size [of "set_grid textured 0 [4, 4, 4, 4]" scene_rank 0 2
        "Texture 7 True 64 32" Null] r
    by (simp add: scene_rank_def set_grid_def textured_def scene_def new_Sprite_def)
  have c: "width (set_grid textured 0 [4, 4, 4, 4] 0) = 64"
    by (simp add: set_grid_def textured_def)
  show ?thesis using a b c by blast
qed

subsection \<open>Edge pins against percent sizes\<close>

lemma resizeWidth_resolves:
  assumes "ranked s rk" "parent (s c) = Some p" "rk c < rk p" "rk c < n"
  shows "\<exists>s'. resizeWidth n s c = Some s' \<and> sameButW s s' \<and> s' p = s p \<and>
           (\<forall>l r. left (s' c) = Some l \<and> right (s' c) = Some r \<longrightarrow>
                  width (s' c) = width (s' p) - l - r)"
proof (cases "\<exists>l r. left (s c) = Some l \<and> right (s c) = Some r")
  case True
  then obtain l r where lr: "left (s c) = Some l" "right (s c) = Some r" by blast
  obtain s' where s': "resizeWidth n s c = Some s'" "width (s' c) = width (s p) - l - r"
    "s' p = s p"
    using resizeWidth_pinned [OF assms(1,2) lr assms(3,4)] by blast
  have sb: "sameButW s s'" using sameButW_resizeWidth [OF s'(1)] .
  have "left (s' c) = Some l" "right (s' c) = Some r"
    using sameButW_fields [OF sb] lr by simp_all
  then show ?thesis using s' sb by auto
next
  case False
  obtain s' where s': "resizeWidth n s c = Some s'"
    using resizeWidth_total assms(1,4) by blast
  have sb: "sameButW s s'" using sameButW_resizeWidth [OF s'] .
  have pc: "p \<noteq> c" "\<not> rk p < rk c" using assms(3) by auto
  have "s' p = s p" by (rule resizeWidth_frame [OF s' assms(1) pc])
  moreover have "left (s' c) = left (s c)" "right (s' c) = right (s c)"
    using sameButW_fields [OF sb] by simp_all
  ultimately show ?thesis using s' sb False by auto
qed

lemma width_pin_step:
  assumes "ranked s rk" "parent (s c) = Some p" "rk c < rk p" "rk c < n"
    and "\<forall>t b. top (s c) = Some t \<and> bottom (s c) = Some b \<longrightarrow>
               height (s c) = height (s p) - t - b"
    and "children r = children (s c)" "parent r = parent (s c)" "top r = top (s c)"
    and "bottom r = bottom (s c)" "height r = height (s c)"
  shows "\<exists>s'. resizeWidth n (s(c := r)) c = Some s' \<and> ranked s' rk \<and>
           parent (s' c) = Some p \<and>
           (\<forall>l r. left (s' c) = Some l \<and> right (s' c) = Some r \<longrightarrow>
                  width (s' c) = width (s' p) - l - r) \<and>
           (\<forall>t b. top (s' c) = Some t \<and> bottom (s' c) = Some b \<longrightarrow>
                  height (s' c) = height (s' p) - t - b) \<and>
           left (s' c) = left r \<and> right (s' c) = right r \<and>
           top (s' c) = top (s c) \<and> bottom (s' c) = bottom (s c) \<and>
           autoResize (s' c) = autoResize r"
proof -
  let ?s1 = "s(c := r)"
  have pc: "p \<noteq> c" using assms(3) by auto
  have r1: "ranked ?s1 rk" using assms(1,6) by (simp add: ranked_upd)
  have p1: "parent (?s1 c) = Some p" using assms(2,7) by simp
  obtain s' where s': "resizeWidth n ?s1 c = Some s'" "sameButW ?s1 s'" "s' p = ?s1 p"
    "\<forall>l r. left (s' c) = Some l \<and> right (s' c) = Some r \<longrightarrow> width (s' c) = width (s' p) - l - r"
    using resizeWidth_resolves [OF r1 p1 assms(3,4)] by blast
  have f: "parent (s' c) = Some p" "left (s' c) = left r" "right (s' c) = right r"
    "top (s' c) = top (s c)" "bottom (s' c) = bottom (s c)" "autoResize (s' c) = autoResize r"
    "height (s' c) = height (s c)"
    using sameButW_fields [OF s'(2), of c] assms(2,7-10) by simp_all
  have hp: "height (s' p) = height (s p)" using s'(3) pc by simp
  have "ranked s' rk" using r1 s'(2) ranked_sameButW by blast
  then show ?thesis using s'(1,4) f hp assms(5) by auto
qed


lemma resizeHeight_resolves:
  assumes "ranked s rk" "parent (s c) = Some p" "rk c < rk p" "rk c < n"
  shows "\<exists>s'. resizeHeight n s c = Some s' \<and> sameButH s s' \<and> s' p = s p \<and>
           (\<forall>l r. top (s' c) = Some l \<and> bottom (s' c) = Some r \<longrightarrow>
                  height (s' c) = height (s' p) - l - r)"
proof (cases "\<exists>l r. top (s c) = Some l \<and> bottom (s c) = Some r")
  case True
  then obtain l r where lr: "top (s c) = Some l" "bottom (s c) = Some r" by blast
  obtain s' where s': "resizeHeight n s c = Some s'" "height (s' c) = height (s p) - l - r"
    "s' p = s p"
    using resizeHeight_pinned [OF assms(1,2) lr assms(3,4)] by blast
  have sb: "sameButH s s'" using sameButH_resizeHeight [OF s'(1)] .
  have "top (s' c) = Some l" "bottom (s' c) = Some r"
    using sameButH_fields [OF sb] lr by simp_all
  then show ?thesis using s' sb by auto
next
  case False
  obtain s' where s': "resizeHeight n s c = Some s'"
    using resizeHeight_total assms(1,4) by blast
  have sb: "sameButH s s'" using sameButH_resizeHeight [OF s'] .
  have pc: "p \<noteq> c" "\<not> rk p < rk c" using assms(3) by auto
  have "s' p = s p" by (rule resizeHeight_frame [OF s' assms(1) pc])
  moreover have "top (s' c) = top (s c)" "bottom (s' c) = bottom (s c)"
    using sameButH_fields [OF sb] by simp_all
  ultimately show ?thesis using s' sb False by auto
qed

lemma height_pin_step:
  assumes "ranked s rk" "parent (s c) = Some p" "rk c < rk p" "rk c < n"
    and "\<forall>t b. left (s c) = Some t \<and> right (s c) = Some b \<longrightarrow>
               width (s c) = width (s p) - t - b"
    and "children r = children (s c)" "parent r = parent (s c)" "left r = left (s c)"
    and "right r = right (s c)" "width r = width (s c)"
  shows "\<exists>s'. resizeHeight n (s(c := r)) c = Some s' \<and> ranked s' rk \<and>
           parent (s' c) = Some p \<and>
           (\<forall>l r. top (s' c) = Some l \<and> bottom (s' c) = Some r \<longrightarrow>
                  height (s' c) = height (s' p) - l - r) \<and>
           (\<forall>t b. left (s' c) = Some t \<and> right (s' c) = Some b \<longrightarrow>
                  width (s' c) = width (s' p) - t - b) \<and>
           top (s' c) = top r \<and> bottom (s' c) = bottom r \<and>
           left (s' c) = left (s c) \<and> right (s' c) = right (s c) \<and>
           autoResize (s' c) = autoResize r"
proof -
  let ?s1 = "s(c := r)"
  have pc: "p \<noteq> c" using assms(3) by auto
  have r1: "ranked ?s1 rk" using assms(1,6) by (simp add: ranked_upd)
  have p1: "parent (?s1 c) = Some p" using assms(2,7) by simp
  obtain s' where s': "resizeHeight n ?s1 c = Some s'" "sameButH ?s1 s'" "s' p = ?s1 p"
    "\<forall>l r. top (s' c) = Some l \<and> bottom (s' c) = Some r \<longrightarrow> height (s' c) = height (s' p) - l - r"
    using resizeHeight_resolves [OF r1 p1 assms(3,4)] by blast
  have f: "parent (s' c) = Some p" "top (s' c) = top r" "bottom (s' c) = bottom r"
    "left (s' c) = left (s c)" "right (s' c) = right (s c)" "autoResize (s' c) = autoResize r"
    "width (s' c) = width (s c)"
    using sameButH_fields [OF s'(2), of c] assms(2,7-10) by simp_all
  have hp: "width (s' p) = width (s p)" using s'(3) pc by simp
  have "ranked s' rk" using r1 s'(2) ranked_sameButH by blast
  then show ?thesis using s'(1,4) f hp assms(5) by auto
qed


lemma pin_or_percent_step:
  assumes "ranked s rk" "parent (s c) = Some p" "rk c < rk p" "rk c < n"
    and "\<forall>l r. left (s c) = Some l \<and> right (s c) = Some r \<longrightarrow>
               width (s c) = width (s p) - l - r"
    and "\<forall>t b. top (s c) = Some t \<and> bottom (s c) = Some b \<longrightarrow>
               height (s c) = height (s p) - t - b"
    and "is_pin_or_percent a"
  shows "\<exists>s'. assign n s c a = Some s' \<and> ranked s' rk \<and> parent (s' c) = Some p \<and>
           (\<forall>l r. left (s' c) = Some l \<and> right (s' c) = Some r \<longrightarrow>
                  width (s' c) = width (s' p) - l - r) \<and>
           (\<forall>t b. top (s' c) = Some t \<and> bottom (s' c) = Some b \<longrightarrow>
                  height (s' c) = height (s' p) - t - b) \<and>
           \<not> autoResize (s' c) \<and>
           left (s' c) = (case a of Set_left v \<Rightarrow> Some v | _ \<Rightarrow> left (s c)) \<and>
           right (s' c) = (case a of Set_right v \<Rightarrow> Some v | _ \<Rightarrow> right (s c)) \<and>
           top (s' c) = (case a of Set_top v \<Rightarrow> Some v | _ \<Rightarrow> top (s c)) \<and>
           bottom (s' c) = (case a of Set_bottom v \<Rightarrow> Some v | _ \<Rightarrow> bottom (s c))"
proof (cases a)
  case (Set_top v)
  show ?thesis
    using height_pin_step [OF assms(1-5), of "(s c)\<lparr>autoResize := False, top := Some v\<rparr>"]
    unfolding Set_top assign.simps set_top_def by auto
next
  case (Set_right v)
  show ?thesis
    using width_pin_step [OF assms(1-4,6), of "(s c)\<lparr>autoResize := False, right := Some v\<rparr>"]
    unfolding Set_right assign.simps set_right_def by auto
next
  case (Set_bottom v)
  show ?thesis
    using height_pin_step [OF assms(1-5), of "(s c)\<lparr>autoResize := False, bottom := Some v\<rparr>"]
    unfolding Set_bottom assign.simps set_bottom_def by auto
next
  case (Set_left v)
  show ?thesis
    using width_pin_step [OF assms(1-4,6), of "(s c)\<lparr>autoResize := False, left := Some v\<rparr>"]
    unfolding Set_left assign.simps set_left_def by auto
next
  case (Set_percentWidth v)
  show ?thesis
    using width_pin_step [OF assms(1-4,6),
        of "(s c)\<lparr>autoResize := False, percentWidth := Some v\<rparr>"]
    unfolding Set_percentWidth assign.simps set_percentWidth_def by auto
next
  case (Set_percentHeight v)
  show ?thesis
    using height_pin_step [OF assms(1-5),
        of "(s c)\<lparr>autoResize := False, percentHeight := Some v\<rparr>"]
    unfolding Set_percentHeight assign.simps set_percentHeight_def by auto
qed (use assms(7) in simp_all)


lemma pins_sequence:
  assumes "ranked s rk" "parent (s c) = Some p" "rk c < rk p" "rk c < n"
    and "\<forall>l r. left (s c) = Some l \<and> right (s c) = Some r \<longrightarrow>
               width (s c) = width (s p) - l - r"
    and "\<forall>t b. top (s c) = Some t \<and> bottom (s c) = Some b \<longrightarrow>
               height (s c) = height (s p) - t - b"
    and "\<forall>a\<in>set ops. is_pin_or_percent a"
  shows "\<exists>s'. assigns n s (map (Pair c) ops) = Some s' \<and>
           (\<forall>l r. left (s' c) = Some l \<and> right (s' c) = Some r \<longrightarrow>
                  width (s' c) = width (s' p) - l - r) \<and>
           (\<forall>t b. top (s' c) = Some t \<and> bottom (s' c) = Some b \<longrightarrow>
                  height (s' c) = height (s' p) - t - b) \<and>
           (ops \<noteq> [] \<or> \<not> autoResize (s c) \<longrightarrow> \<not> autoResize (s' c)) \<and>
           (left (s c) \<noteq> None \<or> (\<exists>v. Set_left v \<in> set ops) \<longrightarrow> left (s' c) \<noteq> None) \<and>
           (right (s c) \<noteq> None \<or> (\<exists>v. Set_right v \<in> set ops) \<longrightarrow> right (s' c) \<noteq> None) \<and>
           (top (s c) \<noteq> None \<or> (\<exists>v. Set_top v \<in> set ops) \<longrightarrow> top (s' c) \<noteq> None) \<and>
           (bottom (s c) \<noteq> None \<or> (\<exists>v. Set_bottom v \<in> set ops) \<longrightarrow> bottom (s' c) \<noteq> None)"
  using assms
proof (induction ops arbitrary: s)
  case Nil
  then show ?case by simp
next
  case (Cons a ops)
  have pa: "is_pin_or_percent a" using Cons.prems(7) by simp
  obtain s1 where s1: "assign n s c a = Some s1" "ranked s1 rk" "parent (s1 c) = Some p"
    "\<forall>l r. left (s1 c) = Some l \<and> right (s1 c) = Some r \<longrightarrow>
       width (s1 c) = width (s1 p) - l - r"
    "\<forall>t b. top (s1 c) = Some t \<and> bottom (s1 c) = Some b \<longrightarrow>
       height (s1 c) = height (s1 p) - t - b"
    "\<not> autoResize (s1 c)"
    "left (s1 c) = (case a of Set_left v \<Rightarrow> Some v | _ \<Rightarrow> left (s c))"
    "right (s1 c) = (case a of Set_right v \<Rightarrow> Some v | _ \<Rightarrow> right (s c))"
    "top (s1 c) = (case a of Set_top v \<Rightarrow> Some v | _ \<Rightarrow> top (s c))"
    "bottom (s1 c) = (case a of Set_bottom v \<Rightarrow> Some v | _ \<Rightarrow> bottom (s c))"
    using pin_or_percent_step [OF Cons.prems(1-6) pa] by blast
  have rest: "\<forall>a\<in>set ops. is_pin_or_percent a" using Cons.prems(7) by simp
  obtain s' where s': "assigns n s1 (map (Pair c) ops) = Some s'"
    "\<forall>l r. left (s' c) = Some l \<and> right (s' c) = Some r \<longrightarrow>
       width (s' c) = width (s' p) - l - r"
    "\<forall>t b. top (s' c) = Some t \<and> bottom (s' c) = Some b \<longrightarrow>
       height (s' c) = height (s' p) - t - b"
    "ops \<noteq> [] \<or> \<not> autoResize (s1 c) \<longrightarrow> \<not> autoResize (s' c)"
    "left (s1 c) \<noteq> None \<or> (\<exists>v. Set_left v \<in> set ops) \<longrightarrow> left (s' c) \<noteq> None"
    "right (s1 c) \<noteq> None \<or> (\<exists>v. Set_right v \<in> set ops) \<longrightarrow> right (s' c) \<noteq> None"
    "top (s1 c) \<noteq> None \<or> (\<exists>v. Set_top v \<in> set ops) \<longrightarrow> top (s' c) \<noteq> None"
    "bottom (s1 c) \<noteq> None \<or> (\<exists>v. Set_bottom v \<in> set ops) \<longrightarrow> bottom (s' c) \<noteq> None"
    using Cons.IH [OF s1(2,3) Cons.prems(3,4) s1(4,5) rest] by blast
  have run: "assigns n s (map (Pair c) (a # ops)) = Some s'" using s1(1) s'(1) by simp
  have ar: "\<not> autoResize (s' c)" using s'(4) s1(6) by simp
  have l: "left (s c) \<noteq> None \<or> (\<exists>v. Set_left v \<in> set (a # ops)) \<longrightarrow> left (s' c) \<noteq> None"
    using s'(5) s1(7) by (cases a) auto
  have r: "right (s c) \<noteq> None \<or> (\<exists>v. Set_right v \<in> set (a # ops)) \<longrightarrow> right (s' c) \<noteq> None"
    using s'(6) s1(8) by (cases a) auto
  have t: "top (s c) \<noteq> None \<or> (\<exists>v. Set_top v \<in> set (a # ops)) \<longrightarrow> top (s' c) \<noteq> None"
    using s'(7) s1(9) by (cases a) auto
  have b: "bottom (s c) \<noteq> None \<or> (\<exists>v. Set_bottom v \<in> set (a # ops)) \<longrightarrow> bottom (s' c) \<noteq> None"
    using s'(8) s1(10) by (cases a) auto
  show ?case using run s'(2,3) ar l r t b by blast
qed

lemma assign_pin_autoResize:
  assumes "is_pin_or_percent a" "assign n s i a = Some s'"
  shows "\<not> autoResize (s' i)"
proof (cases a)
  case (Set_top v)
  then show ?thesis
    using assms(2) sameButH_fields(8) [OF sameButH_resizeHeight, of n _ i s' i]
    by (simp add: set_top_def)
next
  case (Set_right v)
  then show ?thesis
    using assms(2) sameButW_fields(8) [OF sameButW_resizeWidth, of n _ i s' i]
    by (simp add: set_right_def)
next
  case (Set_bottom v)
  then show ?thesis
    using assms(2) sameButH_fields(8) [OF sameButH_resizeHeight, of n _ i s' i]
    by (simp add: set_bottom_def)
next
  case (Set_left v)
  then show ?thesis
    using assms(2) sameButW_fields(8) [OF sameButW_resizeWidth, of n _ i s' i]
    by (simp add: set_left_def)
next
  case (Set_percentWidth v)
  then show ?thesis
    using assms(2) sameButW_fields(8) [OF sameButW_resizeWidth, of n _ i s' i]
    by (simp add: set_percentWidth_def)
next
  case (Set_percentHeight v)
  then show ?thesis
    using assms(2) sameButH_fields(8) [OF sameButH_resizeHeight, of n _ i s' i]
    by (simp add: set_percentHeight_def)
qed (use assms(1) in simp_all)

lemma assign_pin_total:
  assumes "ranked s rk" "rk i < n" "is_pin_or_percent a"
  shows "\<exists>s'. assign n s i a = Some s'"
proof -
  have w: "\<exists>s'. resizeWidth n (s(i := r)) i = Some s'" if "children r = children (s i)" for r
    using resizeWidth_total [OF ranked_upd [OF assms(1) that] assms(2)] .
  have h: "\<exists>s'. resizeHeight n (s(i := r)) i = Some s'" if "children r = children (s i)" for r
    using resizeHeight_total [OF ranked_upd [OF assms(1) that] assms(2)] .
  show ?thesis
  proof (cases a)
    case (Set_top v)
    then show ?thesis using h [of "(s i)\<lparr>autoResize := False, top := Some v\<rparr>"]
      by (simp add: set_top_def)
  next
    case (Set_right v)
    then show ?thesis using w [of "(s i)\<lparr>autoResize := False, right := Some v\<rparr>"]
      by (simp add: set_right_def)
  next
    case (Set_bottom v)
    then show ?thesis using h [of "(s i)\<lparr>autoResize := False, bottom := Some v\<rparr>"]
      by (simp add: set_bottom_def)
  next
    case (Set_left v)
    then show ?thesis using w [of "(s i)\<lparr>autoResize := False, left := Some v\<rparr>"]
      by (simp add: set_left_def)
  next
    case (Set_percentWidth v)
    then show ?thesis using w [of "(s i)\<lparr>autoResize := False, percentWidth := Some v\<rparr>"]
      by (simp add: set_percentWidth_def)
  next
    case (Set_percentHeight v)
    then show ?thesis using h [of "(s i)\<lparr>autoResize := False, percentHeight := Some v\<rparr>"]
      by (simp add: set_percentHeight_def)
  qed (use assms(3) in simp_all)
qed

text \<open>
  C9. Take a sprite with a parent (on a forest) whose two pins of each dimension are not
  both set, and assign its edge pins and percent sizes in any order and any number of
  times. Every assignment returns. Afterwards, whenever the left and the right pin are both
  set the width is the width of the parent minus the two pins, whatever the percent
  width, and likewise the height with the top and the bottom pin; a pin that has been
  assigned is set; and after at least one assignment autoResize is false. On any sprite of
  the forest, with a parent or without, each single edge-pin or percent-size setter
  returns and leaves autoResize false.
\<close>

theorem pins_override_percent:
  assumes "ranked s rk" and "parent (s c) = Some p" and "rk c < rk p" and "rk c < n"
    and "left (s c) = None \<or> right (s c) = None"
    and "top (s c) = None \<or> bottom (s c) = None"
    and "\<forall>a\<in>set ops. is_pin_or_percent a"
  shows "\<exists>s'. assigns n s (map (Pair c) ops) = Some s' \<and>
           (\<forall>l r. left (s' c) = Some l \<and> right (s' c) = Some r \<longrightarrow>
                  width (s' c) = width (s' p) - l - r) \<and>
           (\<forall>t b. top (s' c) = Some t \<and> bottom (s' c) = Some b \<longrightarrow>
                  height (s' c) = height (s' p) - t - b) \<and>
           (ops \<noteq> [] \<longrightarrow> \<not> autoResize (s' c)) \<and>
           ((\<exists>v. Set_left v \<in> set ops) \<longrightarrow> left (s' c) \<noteq> None) \<and>
           ((\<exists>v. Set_right v \<in> set ops) \<longrightarrow> right (s' c) \<noteq> None) \<and>
           ((\<exists>v. Set_top v \<in> set ops) \<longrightarrow> top (s' c) \<noteq> None) \<and>
           ((\<exists>v. Set_bottom v \<in> set ops) \<longrightarrow> bottom (s' c) \<noteq> None) \<and>
           (\<forall>a j. is_pin_or_percent a \<and> rk j < n \<longrightarrow>
              (\<exists>s1. assign n s j a = Some s1 \<and> \<not> autoResize (s1 j)))"
proof -
  have single: "\<exists>s1. assign n s j a = Some s1 \<and> \<not> autoResize (s1 j)"
    if "is_pin_or_percent a" "rk j < n" for a j
    using assign_pin_total [OF assms(1) that(2,1)] assign_pin_autoResize [OF that(1)] by blast
  have w: "\<forall>l r. left (s c) = Some l \<and> right (s c) = Some r \<longrightarrow>
               width (s c) = width (s p) - l - r"
    using assms(5) by auto
  have h: "\<forall>t b. top (s c) = Some t \<and> bottom (s c) = Some b \<longrightarrow>
               height (s c) = height (s p) - t - b"
    using assms(6) by auto
  obtain s' where "assigns n s (map (Pair c) ops) = Some s'"
    "\<forall>l r. left (s' c) = Some l \<and> right (s' c) = Some r \<longrightarrow>
       width (s' c) = width (s' p) - l - r"
    "\<forall>t b. top (s' c) = Some t \<and> bottom (s' c) = Some b \<longrightarrow>
       height (s' c) = height (s' p) - t - b"
    "ops \<noteq> [] \<longrightarrow> \<not> autoResize (s' c)"
    "(\<exists>v. Set_left v \<in> set ops) \<longrightarrow> left (s' c) \<noteq> None"
    "(\<exists>v. Set_right v \<in> set ops) \<longrightarrow> right (s' c) \<noteq> None"
    "(\<exists>v. Set_top v \<in> set ops) \<longrightarrow> top (s' c) \<noteq> None"
    "(\<exists>v. Set_bottom v \<in> set ops) \<longrightarrow> bottom (s' c) \<noteq> None"
    using pins_sequence [OF assms(1-4) w h assms(7)] by blast
  then show ?thesis using single by blast
qed

lemma ranked_unpinned: "ranked unpinned scene_rank"
  by (simp add: ranked_def unpinned_def new_Sprite_def scene_rank_def)

lemma unpinned_run1:
  "\<exists>s'. assigns 2 unpinned [(1, Set_percentWidth 0.5), (1, Set_left 10), (1, Set_right 20)] = Some s' \<and>
     left (s' 1) = Some 10 \<and> right (s' 1) = Some 20 \<and> percentWidth (s' 1) = Some 0.5 \<and>
     width (s' 0) = 200"
  by (simp add: unpinned_def new_Sprite_def set_percentWidth_def set_left_def set_right_def
      resizeWidth.simps adjustAlignX_def numeral_2_eq_2)

lemma unpinned_run2:
  "\<exists>s'. assigns 2 unpinned [(1, Set_left 10), (1, Set_right 20), (1, Set_percentWidth 0.5)] = Some s' \<and>
     left (s' 1) = Some 10 \<and> right (s' 1) = Some 20 \<and> percentWidth (s' 1) = Some 0.5 \<and>
     width (s' 0) = 200"
  by (simp add: unpinned_def new_Sprite_def set_percentWidth_def set_left_def set_right_def
      resizeWidth.simps adjustAlignX_def numeral_2_eq_2)

theorem pins_override_percent_witness:
  "(\<exists>s'. assigns 2 unpinned [(1, Set_percentWidth 0.5), (1, Set_left 10), (1, Set_right 20)]
            = Some s' \<and> width (s' 1) = 170 \<and> \<not> autoResize (s' 1)) \<and>
   (\<exists>s'. assigns 2 unpinned [(1, Set_left 10), (1, Set_right 20), (1, Set_percentWidth 0.5)]
            = Some s' \<and> width (s' 1) = 170 \<and> \<not> autoResize (s' 1))"
proof -
  have h: "parent (unpinned 1) = Some 0" "left (unpinned 1) = None" "top (unpinned 1) = None"
    by (simp_all add: unpinned_def new_Sprite_def)
  have a: "\<exists>s'. assigns 2 unpinned [(1, Set_percentWidth 0.5), (1, Set_left 10), (1, Set_right 20)]
            = Some s' \<and> width (s' 1) = 170 \<and> \<not> autoResize (s' 1)"
    using pins_override_percent [of unpinned scene_rank 1 0 2
        "[Set_percentWidth 0.5, Set_left 10, Set_right 20]"] ranked_unpinned h unpinned_run1
    by (auto simp: scene_rank_def)
  have b: "\<exists>s'. assigns 2 unpinned [(1, Set_left 10), (1, Set_right 20), (1, Set_percentWidth 0.5)]
            = Some s' \<and> width (s' 1) = 170 \<and> \<not> autoResize (s' 1)"
    using pins_override_percent [of unpinned scene_rank 1 0 2
        "[Set_left 10, Set_right 20, Set_percentWidth 0.5]"] ranked_unpinned h unpinned_run2
    by (auto simp: scene_rank_def)
  show ?thesis using a b by blast
qed

section \<open>Properties of the tree operations\<close>

text \<open>
  C7. For every sprite \<open>p\<close> and every sprite \<open>c\<close> that already has a parent,
  \<open>p.addChild(c)\<close> throws at once and writes nothing: the heap at the throw is the heap
  before the call, so the children of \<open>p\<close>, the parent and stage of \<open>c\<close> and the children
  of the parent of \<open>c\<close> are as they were.
\<close>

theorem addChild_parented_throws:
  assumes "parent (s c) \<noteq> None"
  shows "addChild n s p c position =
           Threw (Error ''canvas2d.Sprite.addChild(): Child has been added.'') s"
  using assms by (simp add: addChild_def)

theorem addChild_parented_throws_witness:
  "parent (scene 1) \<noteq> None \<and>
   addChild 0 scene 2 1 None =
     Threw (Error ''canvas2d.Sprite.addChild(): Child has been added.'') scene"
  using addChild_parented_throws [of scene 1 0 2 None]
  by (simp add: scene_def)

section \<open>Properties of the action engine\<close>

lemma Action__step_Nil: "queue a = [] \<Longrightarrow> Action__step n dt a st calls = Returned (a, st, calls)"
  by (simp add: Action__step.simps)

text \<open>
  C1, as the specification states it, fails: \<open>Delay\<close> is declared with
  \<open>immediate = true\<close>, so the chaining does not halt at the delay. After \<open>start()\<close> and
  one tick of 1.5 on the queue then(7), wait(1), then(8), the queue is empty (its length is
  0, not 1) and the action is marked done.
\<close>

theorem chain_halts_at_delay_counterexample:
  "map_result (\<lambda>w. (length (queue (actionHeap w 0)), action_done (actionHeap w 0)))
     (Action_step 0 1.5 chained) = Returned (0, True)"
  by (simp add: chained_def queued_def idle_def Action_step_def Action_start_def Action_then_def
      Action_wait_def addArrayItem_def removeArrayItem_def
      new_Action_def new_Delay_def new_Callback_def Action_step_loop.simps Action__step.simps)

lemma Action__step_chain:
  assumes "d \<le> dt" and "queue a = [new_Callback f, new_Delay d, new_Callback g]"
  shows "Action__step n dt a st calls =
     Returned (a\<lparr>queue := [], action_done := True, running := False, sprite := None\<rparr>,
               st, calls @ [f, g])"
  using assms by (simp add: Action__step.simps new_Delay_def new_Callback_def)

lemma Action_step_loop_end:
  "\<not> i < length (actionList w) \<Longrightarrow> Action_step_loop n dt w i = Returned w"
  by (simp add: Action_step_loop.simps)

lemma Action_step_loop_next:
  "i < length (actionList w) \<Longrightarrow>
   Action__step n dt (actionHeap w (actionList w ! i)) (sprites w) (called w) =
     Returned (act, st, calls) \<Longrightarrow>
   Action_step_loop n dt w i =
     Action_step_loop n dt
       (w\<lparr>actionHeap := (actionHeap w)(actionList w ! i := act), sprites := st, called := calls,
          actionList := (if action_done act then removeArrayItem (actionList w) (actionList w ! i)
                         else actionList w)\<rparr>)
       (Suc i)"
  by (subst Action_step_loop.simps) (simp add: Let_def)

lemma Action_step_loop_Returned:
  "Action_step_loop n dt w i = Returned w1 \<Longrightarrow> i < length (actionList w) \<Longrightarrow>
   \<exists>act st calls.
     Action__step n dt (actionHeap w (actionList w ! i)) (sprites w) (called w) =
       Returned (act, st, calls)"
  by (subst (asm) Action_step_loop.simps) (auto simp: Let_def split: result.splits)

lemma Action_step_loop_length:
  "Action_step_loop n dt w i = Returned w1 \<Longrightarrow> length (actionList w1) \<le> length (actionList w)"
proof (induction "length (actionList w) - i" arbitrary: w i rule: less_induct)
  case less
  show ?case
  proof (cases "i < length (actionList w)")
    case False
    then show ?thesis using less.prems by (simp add: Action_step_loop_end)
  next
    case True
    obtain act st calls where s:
      "Action__step n dt (actionHeap w (actionList w ! i)) (sprites w) (called w) =
         Returned (act, st, calls)"
      using Action_step_loop_Returned [OF less.prems True] by blast
    let ?w = "w\<lparr>actionHeap := (actionHeap w)(actionList w ! i := act), sprites := st,
          called := calls,
          actionList := (if action_done act then removeArrayItem (actionList w) (actionList w ! i)
                         else actionList w)\<rparr>"
    have l: "length (actionList ?w) \<le> length (actionList w)"
      by (simp add: removeArrayItem_def length_remove1)
    have r: "Action_step_loop n dt ?w (Suc i) = Returned w1"
      using Action_step_loop_next [OF True s] less.prems by simp
    have "length (actionList w1) \<le> length (actionList ?w)"
      by (rule less.hyps [OF _ r]) (use l True in arith)
    then show ?thesis using l by arith
  qed
qed

text \<open>
  A tick that removes no action steps the actions of the list in turn, so that an action
  appended to the list is reached after them.
\<close>

lemma Action_step_loop_appended:
  "k \<notin> set (actionList w) \<Longrightarrow> Action_step_loop n dt w i = Returned w1 \<Longrightarrow>
   length (actionList w1) = length (actionList w) \<Longrightarrow> i \<le> length (actionList w) \<Longrightarrow>
   Action_step_loop n dt
     (w\<lparr>actionList := actionList w @ [k], actionHeap := (actionHeap w)(k := A)\<rparr>) i =
   Action_step_loop n dt
     (w1\<lparr>actionList := actionList w1 @ [k], actionHeap := (actionHeap w1)(k := A)\<rparr>)
     (length (actionList w)) \<and>
   actionList w1 = actionList w"
proof (induction "length (actionList w) - i" arbitrary: w i rule: less_induct)
  case less
  show ?case
  proof (cases "i < length (actionList w)")
    case False
    then have "i = length (actionList w)" "w1 = w"
      using less.prems by (simp_all add: Action_step_loop_end)
    then show ?thesis by simp
  next
    case True
    let ?a = "actionList w ! i"
    have ak: "?a \<noteq> k" using True less.prems(1) nth_mem by metis
    obtain act st calls where s:
      "Action__step n dt (actionHeap w ?a) (sprites w) (called w) = Returned (act, st, calls)"
      using Action_step_loop_Returned [OF less.prems(2) True] by blast
    let ?w = "w\<lparr>actionHeap := (actionHeap w)(?a := act), sprites := st, called := calls,
          actionList := (if action_done act then removeArrayItem (actionList w) ?a
                         else actionList w)\<rparr>"
    have r: "Action_step_loop n dt ?w (Suc i) = Returned w1"
      using Action_step_loop_next [OF True s] less.prems(2) by simp
    have nd: "\<not> action_done act"
    proof
      assume "action_done act"
      then have "length (actionList ?w) < length (actionList w)"
        using True by (simp add: removeArrayItem_def length_remove1)
      then show False using Action_step_loop_length [OF r] less.prems(3) by arith
    qed
    let ?v = "w\<lparr>actionHeap := (actionHeap w)(?a := act), sprites := st, called := calls\<rparr>"
    have v: "?w = ?v" using nd by simp
    have rv: "Action_step_loop n dt ?v (Suc i) = Returned w1" using r v by simp
    have ih: "Action_step_loop n dt
       (?v\<lparr>actionList := actionList ?v @ [k], actionHeap := (actionHeap ?v)(k := A)\<rparr>) (Suc i) =
      Action_step_loop n dt
       (w1\<lparr>actionList := actionList w1 @ [k], actionHeap := (actionHeap w1)(k := A)\<rparr>)
       (length (actionList ?v)) \<and> actionList w1 = actionList ?v"
      by (rule less.hyps [OF _ _ rv]) (use True less.prems in simp_all)
    let ?W = "w\<lparr>actionList := actionList w @ [k], actionHeap := (actionHeap w)(k := A)\<rparr>"
    have Wi: "i < length (actionList ?W)" "actionList ?W ! i = ?a"
      using True by (simp_all add: nth_append)
    have Ws: "Action__step n dt (actionHeap ?W (actionList ?W ! i)) (sprites ?W) (called ?W) =
       Returned (act, st, calls)"
      using s ak Wi(2) by simp
    let ?X = "?W\<lparr>actionHeap := (actionHeap ?W)(actionList ?W ! i := act), sprites := st,
           called := calls,
           actionList := (if action_done act
                          then removeArrayItem (actionList ?W) (actionList ?W ! i)
                          else actionList ?W)\<rparr>"
    let ?Y = "?v\<lparr>actionList := actionList ?v @ [k], actionHeap := (actionHeap ?v)(k := A)\<rparr>"
    have n1: "Action_step_loop n dt ?W i = Action_step_loop n dt ?X (Suc i)"
      by (rule Action_step_loop_next [OF Wi(1) Ws])
    have e: "?X = ?Y" using nd ak Wi(2) by (simp add: fun_upd_twist)
    have n2: "Action_step_loop n dt ?W i = Action_step_loop n dt ?Y (Suc i)"
      using n1 e by (rule back_subst [where P = "\<lambda>z. Action_step_loop n dt ?W i =
        Action_step_loop n dt z (Suc i)"])
    have lv: "length (actionList ?v) = length (actionList w)" "actionList ?v = actionList w"
      by simp_all
    have ih1: "Action_step_loop n dt ?Y (Suc i) =
      Action_step_loop n dt
       (w1\<lparr>actionList := actionList w1 @ [k], actionHeap := (actionHeap w1)(k := A)\<rparr>)
       (length (actionList w))"
      using ih lv(1) by (simp only:)
    have ih2: "actionList w1 = actionList w" using ih lv(2) by (simp only:)
    show ?thesis using trans [OF n2 ih1] ih2 by (rule conjI)
  qed
qed

lemma Listener__step_actionHeap: "actionHeap (Listener__step w l) = actionHeap w"
  by (simp add: Listener__step_def Let_def split: option.splits)

lemma Listener__step_frame:
  "actionList (Listener__step w l) = actionList w"
  "sprites (Listener__step w l) = sprites w"
  "\<exists>more. called (Listener__step w l) = called w @ more"
  by (simp_all add: Listener__step_def Let_def publish_def split: option.splits)

lemma Listeners_frame:
  "actionHeap (fold (\<lambda>l w2. Listener__step w2 l) ls w) = actionHeap w \<and>
   actionList (fold (\<lambda>l w2. Listener__step w2 l) ls w) = actionList w \<and>
   sprites (fold (\<lambda>l w2. Listener__step w2 l) ls w) = sprites w \<and>
   (\<exists>more. called (fold (\<lambda>l w2. Listener__step w2 l) ls w) = called w @ more)"
proof (induction ls arbitrary: w)
  case Nil
  then show ?case by simp
next
  case (Cons l ls)
  obtain m1 where m1: "called (Listener__step w l) = called w @ m1"
    using Listener__step_frame(3) by blast
  obtain m2 where m2: "called (fold (\<lambda>l w2. Listener__step w2 l) ls (Listener__step w l)) =
      called (Listener__step w l) @ m2"
    using Cons.IH [of "Listener__step w l"] by blast
  show ?case
    using Cons.IH [of "Listener__step w l"] m1 m2
    by (simp add: Listener__step_actionHeap Listener__step_frame(1,2))
qed

text \<open>
  C1, amended. For an action that is not active yet, whose queue is a callback, a delay
  of \<open>d\<close> and a second callback, after \<open>start()\<close> and a single tick with \<open>deltaTime \<ge> d\<close> in
  which no action started before it completes (the tick of the engine without this action
  returns and leaves the active list as it is; in particular when no other action is
  active), the first callback has been called, the delay has completed and, the delay being
  an immediate behaviour, the second callback has been called in the same tick: the queue is
  empty, the action is marked done and not running, its sprite reference is cleared and it
  has left the active list. The two callbacks are called after the other actions have been
  stepped and before the listeners are, whatever listeners are registered. When an action
  started before it completes in the tick, the tick can pass over the action: see C2.
\<close>

theorem chain_through_delay:
  assumes "d \<le> dt"
    and "queue (actionHeap w k) = [new_Callback f, new_Delay d, new_Callback g]"
    and "\<not> running (actionHeap w k)" and "k \<notin> set (actionList w)"
    and "Action_step_loop n dt w 0 = Returned w1" and "actionList w1 = actionList w"
  shows "\<exists>w' more. Action_step n dt (Action_start w k) = Returned w' \<and>
           w' = fold (\<lambda>l w2. Listener__step w2 l) (listenerList w1)
                  (w1\<lparr>actionHeap := (actionHeap w1)
                         (k := (actionHeap w k)\<lparr>queue := [], action_done := True,
                                                  running := False, sprite := None\<rparr>),
                       called := called w1 @ [f, g]\<rparr>) \<and>
           queue (actionHeap w' k) = [] \<and> action_done (actionHeap w' k) \<and>
           \<not> running (actionHeap w' k) \<and> sprite (actionHeap w' k) = None \<and>
           actionList w' = actionList w \<and> sprites w' = sprites w1 \<and>
           called w' = called w1 @ [f, g] @ more"
proof -
  let ?A = "(actionHeap w k)\<lparr>running := True\<rparr>"
  let ?A' = "(actionHeap w k)\<lparr>queue := [], action_done := True, running := False,
               sprite := None\<rparr>"
  let ?W1 = "w1\<lparr>actionList := actionList w1 @ [k], actionHeap := (actionHeap w1)(k := ?A)\<rparr>"
  let ?W2 = "w1\<lparr>actionHeap := (actionHeap w1)(k := ?A'), called := called w1 @ [f, g]\<rparr>"
  have st: "Action_start w k =
      w\<lparr>actionList := actionList w @ [k], actionHeap := (actionHeap w)(k := ?A)\<rparr>"
    using assms(3,4) by (simp add: Action_start_def addArrayItem_def)
  have l0: "Action_step_loop n dt (Action_start w k) 0 =
      Action_step_loop n dt ?W1 (length (actionList w))"
    unfolding st
    using Action_step_loop_appended [where i = 0 and A = "?A", OF assms(4,5)] assms(6) by simp
  have i: "length (actionList w) < length (actionList ?W1)"
    "actionList ?W1 ! length (actionList w) = k"
    using assms(6) by simp_all
  have q: "queue ?A = [new_Callback f, new_Delay d, new_Callback g]" using assms(2) by simp
  have s: "Action__step n dt (actionHeap ?W1 (actionList ?W1 ! length (actionList w)))
       (sprites ?W1) (called ?W1) = Returned (?A', sprites w1, called w1 @ [f, g])"
    using Action__step_chain [OF assms(1) q, of n "sprites w1" "called w1"] i(2) by simp
  have l1: "Action_step_loop n dt ?W1 (length (actionList w)) =
      Action_step_loop n dt ?W2 (Suc (length (actionList w)))"
    using Action_step_loop_next [OF i(1) s] assms(4)
    by (simp add: removeArrayItem_def remove1_append assms(6) [symmetric])
  have l2: "Action_step_loop n dt ?W2 (Suc (length (actionList w))) = Returned ?W2"
    by (rule Action_step_loop_end) (simp add: assms(6))
  let ?w' = "fold (\<lambda>l w2. Listener__step w2 l) (listenerList w1) ?W2"
  have r: "Action_step n dt (Action_start w k) = Returned ?w'"
    using l0 l1 l2 by (simp add: Action_step_def)
  obtain more where m: "called ?w' = called ?W2 @ more"
    using Listeners_frame [of "listenerList w1" ?W2] by blast
  have f: "actionHeap ?w' = actionHeap ?W2" "actionList ?w' = actionList ?W2"
    "sprites ?w' = sprites ?W2"
    using Listeners_frame [of "listenerList w1" ?W2] by blast+
  have "called ?w' = called w1 @ [f, g] @ more" using m by simp
  then show ?thesis using r f assms(6) by simp
qed


lemma busy_facts:
  "queue (actionHeap busy 0) = [new_Callback 7, new_Delay 1, new_Callback 8]"
  "\<not> running (actionHeap busy 0)" "0 \<notin> set (actionList busy)" "actionList busy = [1]"
  by (simp_all add: busy_def idle_def Listener_allDone_def Action_listen_def Action_then_def
      Action_wait_def Action_start_def addArrayItem_def new_Action_def new_Listener_def)

lemma busy_tick:
  "\<exists>w1. Action_step_loop 0 1.5 busy 0 = Returned w1 \<and> actionList w1 = actionList busy \<and>
     listenerList w1 = [0] \<and> called w1 = [] \<and> actions (listenerHeap w1 0) = [0] \<and>
     callback_any (listenerHeap w1 0) = None \<and> callback_all (listenerHeap w1 0) = Some [9]"
  by (simp add: busy_def idle_def Listener_allDone_def Action_listen_def Action_then_def
      Action_wait_def Action_start_def addArrayItem_def new_Action_def new_Listener_def
      new_Delay_def new_Callback_def Action_step_loop.simps Action__step.simps)

theorem chain_through_delay_witness:
  "(1::real) \<le> 1.5 \<and>
   queue (actionHeap busy 0) = [new_Callback 7, new_Delay 1, new_Callback 8] \<and>
   actionList busy = [1] \<and>
   (\<exists>w'. Action_step 0 1.5 (Action_start busy 0) = Returned w' \<and>
      queue (actionHeap w' 0) = [] \<and> action_done (actionHeap w' 0) \<and>
      actionList w' = [1] \<and> called w' = [7, 8, 9])"
proof -
  obtain w1 where w1: "Action_step_loop 0 1.5 busy 0 = Returned w1"
    "actionList w1 = actionList busy" "listenerList w1 = [0]" "called w1 = []"
    "actions (listenerHeap w1 0) = [0]" "callback_any (listenerHeap w1 0) = None"
    "callback_all (listenerHeap w1 0) = Some [9]"
    using busy_tick by blast
  have h: "(1::real) \<le> 1.5" by simp
  obtain w' more where w': "Action_step 0 1.5 (Action_start busy 0) = Returned w'"
    "w' = fold (\<lambda>l w2. Listener__step w2 l) (listenerList w1)
            (w1\<lparr>actionHeap := (actionHeap w1)
                   (0 := (actionHeap busy 0)\<lparr>queue := [], action_done := True,
                                             running := False, sprite := None\<rparr>),
                 called := called w1 @ [7, 8]\<rparr>)"
    "queue (actionHeap w' 0) = []" "action_done (actionHeap w' 0)"
    "actionList w' = actionList busy"
    using chain_through_delay [OF h busy_facts(1,2,3) w1(1,2)] by blast
  have "called w' = [7, 8, 9]"
    unfolding w'(2) w1(3) by (simp add: Listener__step_def w1 publish_def)
  then show ?thesis using h busy_facts(1,4) w'(1,3,4,5) by simp
qed

text \<open>
  C2 fails on the code by a slip of the loop of \<open>Action.step\<close>: the index moves on after
  an action has been removed from the list, so the action that follows a completed one is
  not stepped in that tick. With the actions 0 and 1 active, waiting 1 and 5, a tick of
  1.5 completes and removes the action 0 and leaves the delay of the action 1 at the
  elapsed time 0.
\<close>

theorem skipped_after_removal:
  "map_result (\<lambda>w. (actionList w, map elapsed (queue (actionHeap w 1))))
     (Action_step 0 1.5 two_delays) = Returned ([1], [0])"
  by (simp add: two_delays_def idle_def Action_step_def Action_start_def Action_wait_def
      addArrayItem_def removeArrayItem_def
      new_Action_def new_Delay_def Action_step_loop.simps Action__step.simps)

text \<open>
  C6, as the specification states it, fails: a listener resolves only when an ALL
  callback is registered. With one tracked action, done, and an ANY callback alone, a tick
  calls the ANY callback and leaves the listener in the list, unresolved.
\<close>

theorem unresolved_without_all_callback:
  "map_result (\<lambda>w. (called w, listenerList w, resolved (listenerHeap w 0)))
     (Action_step 0 1 any_only) = Returned ([5], [0], False)"
  by (simp add: any_only_def idle_def Action_step_def Action_stop_def Action_listen_def
      Listener_anyDone_def Listener__step_def publish_def new_Listener_def
      addArrayItem_def removeArrayItem_def
      new_Action_def Action_step_loop.simps)

text \<open>
  C6, amended. At a check of a listener: when at least one tracked action is done and the
  listener does not resolve at this check, its registered ANY callbacks are called once,
  in order, and cleared (a second check calls nothing), and the listener stays in the list
  with its resolved flag unchanged; when all tracked actions are done and at least one ALL
  callback is registered, the ALL callbacks are called once (after the ANY callbacks, if any
  are due), the listener is removed from the list and marked resolved; and on a resolved
  listener \<open>allDone\<close> and \<open>anyDone\<close> call the callback at once and queue nothing.
\<close>

theorem listener_semantics:
  "(callback_any (listenerHeap w l) = Some cbs \<and>
    (\<exists>a\<in>set (actions (listenerHeap w l)). action_done (actionHeap w a)) \<and>
    (callback_all (listenerHeap w l) = None \<or>
     (\<exists>a\<in>set (actions (listenerHeap w l)). \<not> action_done (actionHeap w a)))
    \<longrightarrow>
      called (Listener__step w l) = called w @ cbs \<and>
      callback_any (listenerHeap (Listener__step w l) l) = None \<and>
      resolved (listenerHeap (Listener__step w l) l) = resolved (listenerHeap w l) \<and>
      listenerList (Listener__step w l) = listenerList w \<and>
      called (Listener__step (Listener__step w l) l) = called w @ cbs) \<and>
   (callback_all (listenerHeap w l) = Some cbs \<and>
    (\<forall>a\<in>set (actions (listenerHeap w l)). action_done (actionHeap w a))
    \<longrightarrow>
      called (Listener__step w l) =
        called w @
        (case callback_any (listenerHeap w l) of
           None \<Rightarrow> []
         | Some anys \<Rightarrow> if actions (listenerHeap w l) = [] then [] else anys) @ cbs \<and>
      listenerList (Listener__step w l) = removeArrayItem (listenerList w) l \<and>
      resolved (listenerHeap (Listener__step w l) l)) \<and>
   (resolved (listenerHeap w l) \<longrightarrow>
      Listener_allDone w l cb = w\<lparr>called := called w @ [cb]\<rparr> \<and>
      Listener_anyDone w l cb = w\<lparr>called := called w @ [cb]\<rparr>)"
proof (intro conjI impI)
  show "Listener_allDone w l cb = w\<lparr>called := called w @ [cb]\<rparr>"
    if "resolved (listenerHeap w l)"
    using that by (simp add: Listener_allDone_def)
  show "Listener_anyDone w l cb = w\<lparr>called := called w @ [cb]\<rparr>"
    if "resolved (listenerHeap w l)"
    using that by (simp add: Listener_anyDone_def)
next
  assume h: "callback_all (listenerHeap w l) = Some cbs \<and>
    (\<forall>a\<in>set (actions (listenerHeap w l)). action_done (actionHeap w a))"
  have ex: "list_ex (\<lambda>a. action_done (actionHeap w a)) (actions (listenerHeap w l))
            \<longleftrightarrow> actions (listenerHeap w l) \<noteq> []"
    using h by (cases "actions (listenerHeap w l)") (auto simp: list_ex_iff)
  show "called (Listener__step w l) =
        called w @
        (case callback_any (listenerHeap w l) of
           None \<Rightarrow> []
         | Some anys \<Rightarrow> if actions (listenerHeap w l) = [] then [] else anys) @ cbs"
    using h ex by (simp add: Listener__step_def Let_def publish_def list_all_iff split: option.splits)
  show "listenerList (Listener__step w l) = removeArrayItem (listenerList w) l"
    using h ex by (simp add: Listener__step_def Let_def publish_def list_all_iff split: option.splits)
  show "resolved (listenerHeap (Listener__step w l) l)"
    using h ex by (simp add: Listener__step_def Let_def publish_def list_all_iff split: option.splits)
next
  assume h: "callback_any (listenerHeap w l) = Some cbs \<and>
    (\<exists>a\<in>set (actions (listenerHeap w l)). action_done (actionHeap w a)) \<and>
    (callback_all (listenerHeap w l) = None \<or>
     (\<exists>a\<in>set (actions (listenerHeap w l)). \<not> action_done (actionHeap w a)))"
  have a: "called (Listener__step w l) = called w @ cbs"
    using h by (auto simp: Listener__step_def Let_def publish_def list_all_iff list_ex_iff
        split: option.splits)
  have b: "callback_any (listenerHeap (Listener__step w l) l) = None"
    using h by (auto simp: Listener__step_def Let_def publish_def list_all_iff list_ex_iff
        split: option.splits)
  have c: "resolved (listenerHeap (Listener__step w l) l) = resolved (listenerHeap w l)"
    using h by (auto simp: Listener__step_def Let_def publish_def list_all_iff list_ex_iff
        split: option.splits)
  have d: "listenerList (Listener__step w l) = listenerList w"
    using h by (auto simp: Listener__step_def Let_def publish_def list_all_iff list_ex_iff
        split: option.splits)
  have e: "callback_all (listenerHeap (Listener__step w l) l) = callback_all (listenerHeap w l)"
    using h by (auto simp: Listener__step_def Let_def publish_def list_all_iff list_ex_iff
        split: option.splits)
  have f: "actions (listenerHeap (Listener__step w l) l) = actions (listenerHeap w l)"
    using h by (auto simp: Listener__step_def Let_def publish_def list_all_iff list_ex_iff
        split: option.splits)
  have "called (Listener__step (Listener__step w l) l) = called (Listener__step w l)"
    using h b e f Listener__step_actionHeap [of w l]
    by (auto simp: Listener__step_def [of "Listener__step w l"] Let_def list_all_iff
        split: option.splits)
  then have g: "called (Listener__step (Listener__step w l) l) = called w @ cbs"
    using a by simp
  show "called (Listener__step w l) = called w @ cbs" by (rule a)
  show "callback_any (listenerHeap (Listener__step w l) l) = None" by (rule b)
  show "resolved (listenerHeap (Listener__step w l) l) = resolved (listenerHeap w l)" by (rule c)
  show "listenerList (Listener__step w l) = listenerList w" by (rule d)
  show "called (Listener__step (Listener__step w l) l) = called w @ cbs" by (rule g)
qed

lemma any_only_facts:
  "callback_any (listenerHeap any_only 0) = Some [5]"
  "callback_all (listenerHeap any_only 0) = None"
  "actions (listenerHeap any_only 0) = [0]"
  "action_done (actionHeap any_only 0)"
  "resolved (listenerHeap any_only 0) = False"
  "listenerList any_only = [0]"
  "called any_only = []"
  by (simp_all add: any_only_def idle_def Action_stop_def Action_listen_def
      Listener_anyDone_def new_Listener_def addArrayItem_def removeArrayItem_def)

lemma both_done_facts:
  "callback_any (listenerHeap both_done 0) = Some [5]"
  "callback_all (listenerHeap both_done 0) = Some [6]"
  "actions (listenerHeap both_done 0) = [0, 1]"
  "action_done (actionHeap both_done 0)"
  "action_done (actionHeap both_done (Suc 0))"
  "listenerList both_done = [0]"
  "called both_done = []"
  by (simp_all add: both_done_def idle_def Action_stop_def Action_listen_def
      Listener_anyDone_def Listener_allDone_def new_Listener_def addArrayItem_def
      removeArrayItem_def)

theorem listener_semantics_witness:
  "called (Listener__step any_only 0) = [5] \<and>
   resolved (listenerHeap (Listener__step any_only 0) 0) = False \<and>
   listenerList (Listener__step any_only 0) = [0] \<and>
   called (Listener__step (Listener__step any_only 0) 0) = [5] \<and>
   called (Listener__step both_done 0) = [5, 6] \<and>
   listenerList (Listener__step both_done 0) = [] \<and>
   resolved (listenerHeap (Listener__step both_done 0) 0) \<and>
   called (Listener_allDone (Listener__step both_done 0) 0 9) = [5, 6, 9] \<and>
   called (Listener_anyDone (Listener__step both_done 0) 0 9) = [5, 6, 9]"
proof -
  have a: "called (Listener__step any_only 0) = [5] \<and>
      resolved (listenerHeap (Listener__step any_only 0) 0) = False \<and>
      listenerList (Listener__step any_only 0) = [0] \<and>
      called (Listener__step (Listener__step any_only 0) 0) = [5]"
    using listener_semantics [of any_only 0 "[5]" 9] by (simp add: any_only_facts)
  have b: "called (Listener__step both_done 0) = [5, 6] \<and>
      listenerList (Listener__step both_done 0) = [] \<and>
      resolved (listenerHeap (Listener__step both_done 0) 0)"
    using listener_semantics [of both_done 0 "[6]" 9]
    by (simp add: both_done_facts removeArrayItem_def)
  have c: "called (Listener_allDone (Listener__step both_done 0) 0 9) = [5, 6, 9] \<and>
      called (Listener_anyDone (Listener__step both_done 0) 0 9) = [5, 6, 9]"
    using listener_semantics [of "Listener__step both_done 0" 0 "[6]" 9] b by simp
  show ?thesis using a b c by simp
qed

subsection \<open>The end of a transition\<close>













text \<open>
  An edge pin overwrites a plain field too: the child of \<open>hemmed\<close> has no alignment, and a
  Transition to x = 50 and left = 100 ends with left = 100, the width 80 and, the setter
  of left having resolved the pins again, with x = 140.
\<close>

lemma transition_end_pin_overrides:
  "map_result (\<lambda>(b, st, calls). (is_done b, x (st 1), left (st 1), width (st 1)))
     (step 2 1 (Some 1)
        (new_Transition [\<lparr>name = Attr_x, dest = 50, easing = (\<lambda>t. t)\<rparr>,
                         \<lparr>name = Attr_left, dest = 100, easing = (\<lambda>t. t)\<rparr>] 1)
        hemmed [])
   = Returned (True, 140, Some 100, 80)"
  by (simp add: new_Transition_def hemmed_def unpinned_def new_Sprite_def set_left_def
      resizeWidth.simps adjustAlignX_def numeral_2_eq_2)




subsection \<open>Frame animations\<close>

lemma set_texture_total:
  assumes "ranked s rk" "rk i < n"
  shows "\<exists>s'. set_texture n s i v = Some s' \<and> texture (s' i) = v \<and> ranked s' rk"
proof (cases "v = texture (s i)")
  case True
  then show ?thesis using assms(1) by (simp add: set_texture_def)
next
  case False
  let ?s1 = "s(i := (s i)\<lparr>texture := v\<rparr>)"
  have r1: "ranked ?s1 rk" using assms(1) by (simp add: ranked_upd)
  show ?thesis
  proof (cases "autoResize (s i)")
    case ar: False
    then show ?thesis using False r1 by (simp add: set_texture_def Let_def)
  next
    case ar: True
    have sz: "\<exists>s1 s'. set_width n ?s1 i w = Some s1 \<and> set_height n s1 i h = Some s' \<and>
        texture (s' i) = v \<and> ranked s' rk" for w h
      using set_size_zero [OF r1 assms(2), of w h] by auto
    show ?thesis
    proof (cases v)
      case Undefined
      then show ?thesis using False ar sz [of 0 0] by (auto simp: set_texture_def Let_def)
    next
      case Null
      then show ?thesis using False ar sz [of 0 0] by (auto simp: set_texture_def Let_def)
    next
      case (Ref t)
      show ?thesis
      proof (cases "ready t")
        case True
        then show ?thesis using False ar Ref sz [of "texWidth t" "texHeight t"]
          by (auto simp: set_texture_def Let_def)
      next
        case nr: False
        have "ranked (?s1(i := (?s1 i)\<lparr>onReady := onReady (?s1 i) @ [t]\<rparr>)) rk"
          by (rule ranked_upd [OF r1]) simp
        then show ?thesis using False ar Ref nr by (simp add: set_texture_def Let_def)
      qed
    qed
  qed
qed

lemma Animation_advance:
  assumes "ranked st rk" "rk i < n" "iv \<le> e + dt" "fi < length fl"
  shows "\<exists>st'. step n dt (Some i) (Animation d im e c fi iv fl reps) st calls =
           Returned
             (if Suc fi = length fl then
                (case reps of
                   None \<Rightarrow> Animation d im 0 c 0 iv fl reps
                 | Some r \<Rightarrow>
                     if real (c + 1) < r then Animation d im 0 (c + 1) 0 iv fl reps
                     else Animation True im 0 (c + 1) (Suc fi) iv fl reps)
              else Animation d im 0 c (Suc fi) iv fl reps, st', calls) \<and>
           texture (st' i) = Ref (fl ! fi) \<and> ranked st' rk"
proof -
  obtain st' where "set_texture n st i (Ref (fl ! fi)) = Some st'"
    "texture (st' i) = Ref (fl ! fi)" "ranked st' rk"
    using set_texture_total [OF assms(1,2)] by blast
  then show ?thesis using assms(3,4) by (auto simp: Let_def split: option.splits)
qed

lemma Animation_never_done:
  assumes "ranked st rk" "rk i < n"
  shows "\<exists>e' c' fi' st'. step n dt (Some i) (Animation False im e c fi iv fl None) st calls =
           Returned (Animation False im e' c' fi' iv fl None, st', calls) \<and> ranked st' rk"
proof -
  obtain st' where "set_texture n st i (if fi < length fl then Ref (fl ! fi) else Undefined) = Some st'"
    "ranked st' rk"
    using set_texture_total [OF assms(1,2)] by blast
  then show ?thesis using assms(1) by (auto simp: Let_def)
qed

lemma frames_shown_never_done:
  "ranked st rk \<Longrightarrow> rk i < n \<Longrightarrow>
   \<exists>obs. frames_shown n i dts (Animation False im e c fi iv fl None) st = Some obs \<and>
         length obs = length dts \<and> (\<forall>ob\<in>set obs. \<not> snd ob)"
proof (induction dts arbitrary: e c fi st)
  case Nil
  then show ?case by simp
next
  case (Cons dt dts)
  obtain e' c' fi' st' where s: "step n dt (Some i) (Animation False im e c fi iv fl None) st [] =
           Returned (Animation False im e' c' fi' iv fl None, st', [])" "ranked st' rk"
    using Animation_never_done [OF Cons.prems] by blast
  obtain obs where "frames_shown n i dts (Animation False im e' c' fi' iv fl None) st' = Some obs"
    "length obs = length dts" "\<forall>ob\<in>set obs. \<not> snd ob"
    using Cons.IH [OF s(2) Cons.prems(2)] by blast
  then show ?case using s(1) by simp
qed


lemma frames_shown_two_cycles:
  assumes "ranked st rk" "rk i < n"
    and "iv \<le> d1" "iv \<le> d2" "iv \<le> d3" "iv \<le> d4" "iv \<le> d5"
  shows "frames_shown n i [iv, d1, d2, d3, d4, d5]
           (Animation False False 0 0 0 iv [f0, f1, f2] (Some 2)) st =
         Some [(Ref f0, False), (Ref f1, False), (Ref f2, False),
               (Ref f0, False), (Ref f1, False), (Ref f2, True)]"
proof -
  let ?fl = "[f0, f1, f2]"
  obtain s1 where s1:
    "step n iv (Some i) (Animation False False 0 0 0 iv ?fl (Some 2)) st [] =
       Returned (Animation False False 0 0 1 iv ?fl (Some 2), s1, [])"
    "texture (s1 i) = Ref f0" "ranked s1 rk"
    using Animation_advance [OF assms(1,2), of iv 0 iv 0 ?fl False False 0 "Some 2" "[]"]
    by auto
  obtain s2 where s2:
    "step n d1 (Some i) (Animation False False 0 0 1 iv ?fl (Some 2)) s1 [] =
       Returned (Animation False False 0 0 2 iv ?fl (Some 2), s2, [])"
    "texture (s2 i) = Ref f1" "ranked s2 rk"
    using Animation_advance [OF s1(3) assms(2), of iv 0 d1 1 ?fl False False 0 "Some 2" "[]"]
      assms(3) by (auto simp: numeral_2_eq_2)
  obtain s3 where s3:
    "step n d2 (Some i) (Animation False False 0 0 2 iv ?fl (Some 2)) s2 [] =
       Returned (Animation False False 0 1 0 iv ?fl (Some 2), s3, [])"
    "texture (s3 i) = Ref f2" "ranked s3 rk"
    using Animation_advance [OF s2(3) assms(2), of iv 0 d2 2 ?fl False False 0 "Some 2" "[]"]
      assms(4) by auto
  obtain s4 where s4:
    "step n d3 (Some i) (Animation False False 0 1 0 iv ?fl (Some 2)) s3 [] =
       Returned (Animation False False 0 1 1 iv ?fl (Some 2), s4, [])"
    "texture (s4 i) = Ref f0" "ranked s4 rk"
    using Animation_advance [OF s3(3) assms(2), of iv 0 d3 0 ?fl False False 1 "Some 2" "[]"]
      assms(5) by auto
  obtain s5 where s5:
    "step n d4 (Some i) (Animation False False 0 1 1 iv ?fl (Some 2)) s4 [] =
       Returned (Animation False False 0 1 2 iv ?fl (Some 2), s5, [])"
    "texture (s5 i) = Ref f1" "ranked s5 rk"
    using Animation_advance [OF s4(3) assms(2), of iv 0 d4 1 ?fl False False 1 "Some 2" "[]"]
      assms(6) by (auto simp: numeral_2_eq_2)
  obtain s6 where s6:
    "step n d5 (Some i) (Animation False False 0 1 2 iv ?fl (Some 2)) s5 [] =
       Returned (Animation True False 0 2 3 iv ?fl (Some 2), s6, [])"
    "texture (s6 i) = Ref f2" "ranked s6 rk"
    using Animation_advance [OF s5(3) assms(2), of iv 0 d5 2 ?fl False False 1 "Some 2" "[]"]
      assms(7) by (auto simp: numeral_3_eq_3)
  show ?thesis
    by (simp only: frames_shown.simps s1 s2 s3 s4 s5 s6 result.case prod.case option.case
        IActionDefinition.sel)
qed


lemma Animation_wait:
  "e + dt < iv \<Longrightarrow>
   step n dt sp (Animation d im e c fi iv fl reps) st calls =
     Returned (Animation d im (e + dt) c fi iv fl reps, st, calls)"
  by (simp add: Let_def)

text \<open>
  The state of an animation over three frames with \<open>repetitions = 2\<close> after \<open>k\<close> advances,
  \<open>acc\<close> being the time accumulated since the last of them.
\<close>

lemma frames_shown_spec:
  assumes "rk i < n" "length fl = 3"
  shows "ranked st rk \<Longrightarrow> 1 \<le> k \<Longrightarrow> texture (st i) = Ref (fl ! ((k - 1) mod 3)) \<Longrightarrow>
     list_all (\<lambda>j. j \<le> 6) (spec_advances iv acc k dts) \<Longrightarrow>
     frames_shown n i dts
       (Animation (k = 6) False acc (k div 3) (if k = 6 then 3 else k mod 3) iv fl (Some 2)) st =
     Some (map (\<lambda>j. (Ref (fl ! ((j - 1) mod 3)), j = 6)) (spec_advances iv acc k dts))"
proof (induction dts arbitrary: st k acc)
  case Nil
  then show ?case by simp
next
  case (Cons dt dts)
  show ?case
  proof (cases "iv \<le> acc + dt")
    case True
    then have k5: "k \<le> 5" and rest: "list_all (\<lambda>j. j \<le> 6) (spec_advances iv 0 (Suc k) dts)"
      using Cons.prems(4) by auto
    have fi: "k mod 3 < length fl" using assms(2) by simp
    have k6: "k \<noteq> 6" using k5 by simp
    obtain st' where st': "step n dt (Some i)
        (Animation False False acc (k div 3) (k mod 3) iv fl (Some 2)) st [] =
           Returned
             (if Suc (k mod 3) = length fl then
                (if real (k div 3 + 1) < 2
                 then Animation False False 0 (k div 3 + 1) 0 iv fl (Some 2)
                 else Animation True False 0 (k div 3 + 1) (Suc (k mod 3)) iv fl (Some 2))
              else Animation False False 0 (k div 3) (Suc (k mod 3)) iv fl (Some 2), st', [])"
      "texture (st' i) = Ref (fl ! (k mod 3))" "ranked st' rk"
      using Animation_advance [OF Cons.prems(1) assms(1) True fi, of False False "k div 3"
          "Some 2" "[]"] by auto
    have ks: "k = 1 \<or> k = 2 \<or> k = 3 \<or> k = 4 \<or> k = 5" using Cons.prems(2) k5 by arith
    have nxt: "(if Suc (k mod 3) = length fl then
                (if real (k div 3 + 1) < 2
                 then Animation False False 0 (k div 3 + 1) 0 iv fl (Some 2)
                 else Animation True False 0 (k div 3 + 1) (Suc (k mod 3)) iv fl (Some 2))
              else Animation False False 0 (k div 3) (Suc (k mod 3)) iv fl (Some 2))
          = Animation (Suc k = 6) False 0 (Suc k div 3) (if Suc k = 6 then 3 else Suc k mod 3)
              iv fl (Some 2)"
      using ks assms(2) by (elim disjE) simp_all
    have tx: "texture (st' i) = Ref (fl ! ((Suc k - 1) mod 3))" using st'(2) by simp
    have ih: "frames_shown n i dts
       (Animation (Suc k = 6) False 0 (Suc k div 3) (if Suc k = 6 then 3 else Suc k mod 3)
          iv fl (Some 2)) st' =
       Some (map (\<lambda>j. (Ref (fl ! ((j - 1) mod 3)), j = 6)) (spec_advances iv 0 (Suc k) dts))"
      by (rule Cons.IH [OF st'(3) _ tx rest]) simp
    have "frames_shown n i (dt # dts)
       (Animation False False acc (k div 3) (k mod 3) iv fl (Some 2)) st =
       Some ((Ref (fl ! (k mod 3)), Suc k = 6) #
             map (\<lambda>j. (Ref (fl ! ((j - 1) mod 3)), j = 6)) (spec_advances iv 0 (Suc k) dts))"
      by (simp only: frames_shown.simps st'(1) nxt ih st'(2) result.case prod.case option.case
          IActionDefinition.sel)
    then show ?thesis using True k6 by simp
  next
    case False
    then have rest: "list_all (\<lambda>j. j \<le> 6) (spec_advances iv (acc + dt) k dts)"
      using Cons.prems(4) by simp
    have w: "step n dt (Some i)
        (Animation (k = 6) False acc (k div 3) (if k = 6 then 3 else k mod 3) iv fl (Some 2))
        st [] =
      Returned (Animation (k = 6) False (acc + dt) (k div 3) (if k = 6 then 3 else k mod 3)
        iv fl (Some 2), st, [])"
      by (rule Animation_wait) (use False in simp)
    have ih: "frames_shown n i dts
       (Animation (k = 6) False (acc + dt) (k div 3) (if k = 6 then 3 else k mod 3) iv fl
          (Some 2)) st =
       Some (map (\<lambda>j. (Ref (fl ! ((j - 1) mod 3)), j = 6)) (spec_advances iv (acc + dt) k dts))"
      by (rule Cons.IH [OF Cons.prems(1,2,3) rest])
    have "frames_shown n i (dt # dts)
       (Animation (k = 6) False acc (k div 3) (if k = 6 then 3 else k mod 3) iv fl (Some 2)) st =
       Some ((Ref (fl ! ((k - 1) mod 3)), k = 6) #
             map (\<lambda>j. (Ref (fl ! ((j - 1) mod 3)), j = 6)) (spec_advances iv (acc + dt) k dts))"
      by (simp only: frames_shown.simps w ih Cons.prems(3) result.case prod.case option.case
          IActionDefinition.sel)
    then show ?thesis using False by simp
  qed
qed

lemma frames_shown_from_start:
  assumes "ranked st rk" "rk i < n"
    and "list_all (\<lambda>j. j \<le> 6) (spec_advances iv 0 0 (iv # dts))"
  shows "frames_shown n i (iv # dts) (Animation False False 0 0 0 iv [f0, f1, f2] (Some 2)) st =
     Some (map (\<lambda>j. (Ref ([f0, f1, f2] ! ((j - 1) mod 3)), j = 6))
             (spec_advances iv 0 0 (iv # dts)))"
proof -
  let ?fl = "[f0, f1, f2]"
  obtain s1 where s1:
    "step n iv (Some i) (Animation False False 0 0 0 iv ?fl (Some 2)) st [] =
       Returned (Animation False False 0 0 1 iv ?fl (Some 2), s1, [])"
    "texture (s1 i) = Ref f0" "ranked s1 rk"
    using Animation_advance [OF assms(1,2), of iv 0 iv 0 ?fl False False 0 "Some 2" "[]"]
    by auto
  have rest: "list_all (\<lambda>j. j \<le> 6) (spec_advances iv 0 1 dts)" using assms(3) by simp
  have "frames_shown n i dts
       (Animation (1 = (6::nat)) False 0 (1 div 3) (if 1 = (6::nat) then 3 else 1 mod 3) iv ?fl
          (Some 2)) s1 =
     Some (map (\<lambda>j. (Ref (?fl ! ((j - 1) mod 3)), j = 6)) (spec_advances iv 0 1 dts))"
    by (rule frames_shown_spec [OF assms(2) _ s1(3) _ _ rest]) (simp_all add: s1(2))
  then have ih: "frames_shown n i dts (Animation False False 0 0 1 iv ?fl (Some 2)) s1 =
     Some (map (\<lambda>j. (Ref (?fl ! ((j - 1) mod 3)), j = 6)) (spec_advances iv 0 1 dts))"
    by simp
  have "frames_shown n i (iv # dts) (Animation False False 0 0 0 iv ?fl (Some 2)) st =
     Some ((Ref f0, False) #
           map (\<lambda>j. (Ref (?fl ! ((j - 1) mod 3)), j = 6)) (spec_advances iv 0 1 dts))"
    by (simp only: frames_shown.simps s1 ih result.case prod.case option.case
        IActionDefinition.sel)
  then show ?thesis by simp
qed


text \<open>
  C5. A frame animation over three textures with \<open>repetitions = 2\<close>, on a sprite of a
  forest and with a positive frame rate. The first step, which \<open>animate\<close> forces at once
  with the interval as its elapsed time, shows frame 0, and each later step whose elapsed
  time reaches the interval shows the next frame, in the order 0, 1, 2, 0, 1, 2; the
  animation is marked done with the last of these frames and not before. For steps of any
  elapsed times the frames follow the rule of one advance per elapsed interval: a step
  advances exactly when the time accumulated since the last advance reaches the interval,
  it then shows the next frame of 0, 1, 2, 0, 1, 2, and a step that does not advance
  leaves the frame shown; the animation is marked done at the sixth advance and not
  before. With \<open>repetitions = null\<close> no sequence of steps marks the animation done,
  whatever the frames and the elapsed times are. \<open>animate\<close> queues the animation after its
  first step.
\<close>

theorem frame_animation_loops:
  assumes "0 < rate" and "ranked st rk" and "rk i < n"
  shows "(length dts = 5 \<and> (\<forall>dt\<in>set dts. 1 / rate \<le> dt) \<longrightarrow>
            frames_shown n i (1 / rate # dts) (new_Animation [f0, f1, f2] rate (Some 2)) st =
              Some [(Ref f0, False), (Ref f1, False), (Ref f2, False),
                    (Ref f0, False), (Ref f1, False), (Ref f2, True)]) \<and>
         (list_all (\<lambda>k. k \<le> 6) (spec_advances (1 / rate) 0 0 (1 / rate # ts)) \<longrightarrow>
            frames_shown n i (1 / rate # ts) (new_Animation [f0, f1, f2] rate (Some 2)) st =
              Some (map (\<lambda>k. (Ref ([f0, f1, f2] ! ((k - 1) mod 3)), k = 6))
                      (spec_advances (1 / rate) 0 0 (1 / rate # ts)))) \<and>
         (\<exists>obs. frames_shown n i ticks (new_Animation fl rate None) st = Some obs \<and>
                length obs = length ticks \<and> (\<forall>ob\<in>set obs. \<not> snd ob)) \<and>
         (sprite (actionHeap w a) = Some i \<and> sprites w = st \<longrightarrow>
            (\<exists>w'. Action_animate n w a [f0, f1, f2] rate (Some 2) = Returned w' \<and>
                  texture (sprites w' i) = Ref f0 \<and>
                  queue (actionHeap w' a) =
                    queue (actionHeap w a) @
                    [Animation False False 0 0 1 (1 / rate) [f0, f1, f2] (Some 2)]))"
proof (intro conjI impI)
  assume h: "length dts = 5 \<and> (\<forall>dt\<in>set dts. 1 / rate \<le> dt)"
  then obtain d1 d2 d3 d4 d5 where dts: "dts = [d1, d2, d3, d4, d5]"
    by (auto simp: length_Suc_conv eval_nat_numeral)
  show "frames_shown n i (1 / rate # dts) (new_Animation [f0, f1, f2] rate (Some 2)) st =
           Some [(Ref f0, False), (Ref f1, False), (Ref f2, False),
                 (Ref f0, False), (Ref f1, False), (Ref f2, True)]"
    using frames_shown_two_cycles [OF assms(2,3), of "1 / rate" d1 d2 d3 d4 d5 f0 f1 f2]
      h dts by (simp add: new_Animation_def)
next
  assume "list_all (\<lambda>k. k \<le> 6) (spec_advances (1 / rate) 0 0 (1 / rate # ts))"
  then show "frames_shown n i (1 / rate # ts) (new_Animation [f0, f1, f2] rate (Some 2)) st =
              Some (map (\<lambda>k. (Ref ([f0, f1, f2] ! ((k - 1) mod 3)), k = 6))
                      (spec_advances (1 / rate) 0 0 (1 / rate # ts)))"
    unfolding new_Animation_def by (rule frames_shown_from_start [OF assms(2,3)])
next
  show "\<exists>obs. frames_shown n i ticks (new_Animation fl rate None) st = Some obs \<and>
                length obs = length ticks \<and> (\<forall>ob\<in>set obs. \<not> snd ob)"
    using frames_shown_never_done [OF assms(2,3)] by (simp add: new_Animation_def)
next
  assume h: "sprite (actionHeap w a) = Some i \<and> sprites w = st"
  obtain s1 where s1:
    "step n (1 / rate) (Some i) (Animation False False 0 0 0 (1 / rate) [f0, f1, f2] (Some 2))
       st (called w) =
     Returned (Animation False False 0 0 1 (1 / rate) [f0, f1, f2] (Some 2), s1, called w)"
    "texture (s1 i) = Ref f0"
    using Animation_advance [OF assms(2,3), of "1 / rate" 0 "1 / rate" 0 "[f0, f1, f2]"
        False False 0 "Some 2" "called w"]
    by auto
  show "\<exists>w'. Action_animate n w a [f0, f1, f2] rate (Some 2) = Returned w' \<and>
                  texture (sprites w' i) = Ref f0 \<and>
                  queue (actionHeap w' a) =
                    queue (actionHeap w a) @
                    [Animation False False 0 0 1 (1 / rate) [f0, f1, f2] (Some 2)]"
    using h s1 by (simp add: Action_animate_def new_Animation_def Let_def del: step.simps)
qed

lemma idle_facts: "sprite (actionHeap idle 0) = Some 0" "sprites idle = (\<lambda>_. new_Sprite)"
  by (simp_all add: idle_def new_Action_def)

lemma ranked_idle: "ranked (\<lambda>_. new_Sprite) scene_rank"
  by (simp add: ranked_def new_Sprite_def)

theorem frame_animation_loops_witness:
  "frames_shown 2 0 [1 / 10, 1 / 10, 1 / 5, 1 / 10, 1 / 2, 1 / 10]
     (new_Animation [Texture 0 True 8 8, Texture 1 True 8 8, Texture 2 True 8 8] 10 (Some 2))
     (\<lambda>_. new_Sprite) =
   Some [(Ref (Texture 0 True 8 8), False), (Ref (Texture 1 True 8 8), False),
         (Ref (Texture 2 True 8 8), False), (Ref (Texture 0 True 8 8), False),
         (Ref (Texture 1 True 8 8), False), (Ref (Texture 2 True 8 8), True)] \<and>
   frames_shown 2 0 [1 / 10, 1 / 20, 1 / 20, 1 / 10, 3 / 100, 1 / 5, 1 / 10, 1 / 10]
     (new_Animation [Texture 0 True 8 8, Texture 1 True 8 8, Texture 2 True 8 8] 10 (Some 2))
     (\<lambda>_. new_Sprite) =
   Some [(Ref (Texture 0 True 8 8), False), (Ref (Texture 0 True 8 8), False),
         (Ref (Texture 1 True 8 8), False), (Ref (Texture 2 True 8 8), False),
         (Ref (Texture 2 True 8 8), False), (Ref (Texture 0 True 8 8), False),
         (Ref (Texture 1 True 8 8), False), (Ref (Texture 2 True 8 8), True)] \<and>
   (\<exists>obs. frames_shown 2 0 [1, 1, 1, 1, 1, 1, 1, 1]
            (new_Animation [Texture 0 True 8 8, Texture 1 True 8 8] 10 None)
            (\<lambda>_. new_Sprite) = Some obs \<and>
          length obs = 8 \<and> list_all (\<lambda>ob. \<not> snd ob) obs) \<and>
   (\<exists>w'. Action_animate 2 idle 0
            [Texture 0 True 8 8, Texture 1 True 8 8, Texture 2 True 8 8] 10 (Some 2)
          = Returned w' \<and>
          texture (sprites w' 0) = Ref (Texture 0 True 8 8))"
proof -
  note t = frame_animation_loops [of 10 "\<lambda>_. new_Sprite" scene_rank 0 2
      "[1 / 10, 1 / 5, 1 / 10, 1 / 2, 1 / 10]"
      "Texture 0 True 8 8" "Texture 1 True 8 8" "Texture 2 True 8 8"
      "[1 / 20, 1 / 20, 1 / 10, 3 / 100, 1 / 5, 1 / 10, 1 / 10]"
      "[1, 1, 1, 1, 1, 1, 1, 1]" "[Texture 0 True 8 8, Texture 1 True 8 8]" idle 0]
  have h: "(0::real) < 10" "ranked (\<lambda>_. new_Sprite) scene_rank" "scene_rank 0 < 2"
    using ranked_idle by (simp_all add: scene_rank_def)
  have h5: "length [1 / 10, 1 / 5, 1 / 10, 1 / 2, 1 / 10 :: real] = 5 \<and>
    (\<forall>dt\<in>set [1 / 10, 1 / 5, 1 / 10, 1 / 2, 1 / 10 :: real]. 1 / 10 \<le> dt)"
    by simp
  have sp: "spec_advances (1 / 10) 0 0
      (1 / 10 # [1 / 20, 1 / 20, 1 / 10, 3 / 100, 1 / 5, 1 / 10, 1 / 10]) =
    [1, 1, 2, 3, 3, 4, 5, 6]"
    by simp
  have a: "frames_shown 2 0 [1 / 10, 1 / 10, 1 / 5, 1 / 10, 1 / 2, 1 / 10]
     (new_Animation [Texture 0 True 8 8, Texture 1 True 8 8, Texture 2 True 8 8] 10 (Some 2))
     (\<lambda>_. new_Sprite) =
   Some [(Ref (Texture 0 True 8 8), False), (Ref (Texture 1 True 8 8), False),
         (Ref (Texture 2 True 8 8), False), (Ref (Texture 0 True 8 8), False),
         (Ref (Texture 1 True 8 8), False), (Ref (Texture 2 True 8 8), True)]"
    using t [OF h] h5 by blast
  have "frames_shown 2 0 (1 / 10 # [1 / 20, 1 / 20, 1 / 10, 3 / 100, 1 / 5, 1 / 10, 1 / 10])
     (new_Animation [Texture 0 True 8 8, Texture 1 True 8 8, Texture 2 True 8 8] 10 (Some 2))
     (\<lambda>_. new_Sprite) =
     Some (map (\<lambda>k. (Ref ([Texture 0 True 8 8, Texture 1 True 8 8, Texture 2 True 8 8]
                            ! ((k - 1) mod 3)), k = 6))
            (spec_advances (1 / 10) 0 0
               (1 / 10 # [1 / 20, 1 / 20, 1 / 10, 3 / 100, 1 / 5, 1 / 10, 1 / 10])))"
    using t [OF h] sp by simp
  then have a2: "frames_shown 2 0 [1 / 10, 1 / 20, 1 / 20, 1 / 10, 3 / 100, 1 / 5, 1 / 10, 1 / 10]
     (new_Animation [Texture 0 True 8 8, Texture 1 True 8 8, Texture 2 True 8 8] 10 (Some 2))
     (\<lambda>_. new_Sprite) =
   Some [(Ref (Texture 0 True 8 8), False), (Ref (Texture 0 True 8 8), False),
         (Ref (Texture 1 True 8 8), False), (Ref (Texture 2 True 8 8), False),
         (Ref (Texture 2 True 8 8), False), (Ref (Texture 0 True 8 8), False),
         (Ref (Texture 1 True 8 8), False), (Ref (Texture 2 True 8 8), True)]"
    unfolding sp by (simp add: numeral_2_eq_2)
  obtain obs where b: "frames_shown 2 0 [1, 1, 1, 1, 1, 1, 1, 1]
            (new_Animation [Texture 0 True 8 8, Texture 1 True 8 8] 10 None)
            (\<lambda>_. new_Sprite) = Some obs"
      "length obs = length [1, 1, 1, 1, 1, 1, 1, 1 :: real]" "\<forall>ob\<in>set obs. \<not> snd ob"
    using t [OF h] by blast
  have b': "length obs = 8 \<and> list_all (\<lambda>ob. \<not> snd ob) obs"
    using b(2,3) by (simp add: list_all_iff)
  obtain w' where c: "Action_animate 2 idle 0
            [Texture 0 True 8 8, Texture 1 True 8 8, Texture 2 True 8 8] 10 (Some 2)
          = Returned w' \<and> texture (sprites w' 0) = Ref (Texture 0 True 8 8)"
    using t [OF h] idle_facts by blast
  show ?thesis using a a2 b(1) b' c by blast
qed

end
